theory Spec2Isabelle
  imports Main "HOL-Library.Word"
begin

section \<open>The thread scheduling core of threads/thread.c\<close>

text \<open>
  The embedding follows \<^verbatim>\<open>src/threads/thread.c\<close> and \<^verbatim>\<open>src/threads/thread.h\<close>
  function by function. A \<^verbatim>\<open>struct thread *\<close> is the address of a page; the
  memory holds one \<^verbatim>\<open>struct thread\<close> at the base of every page. The intrusive lists
  (\<^verbatim>\<open>ready_list\<close>, \<^verbatim>\<open>sleeping_list\<close>, \<^verbatim>\<open>all_list\<close>) are the sequences of the
  threads that a walk of the list from its front meets. \<^verbatim>\<open>ready_list\<close> and
  \<^verbatim>\<open>sleeping_list\<close> link the same element of a thread, \<^verbatim>\<open>elem\<close>:
  \<^verbatim>\<open>thread_yield\<close> and \<^verbatim>\<open>thread_sleep\<close> link the one of the running thread, taken
  to be in neither list, and \<^verbatim>\<open>thread_unblock\<close> the one of any blocked thread, which
  may be a sleeper (see \<open>ready_list_push_back\<close>). A failed \<^verbatim>\<open>ASSERT\<close> halts the
  kernel: every function that can fail one returns \<open>Inl\<close> of the assertion.

  Left out are \<^verbatim>\<open>thread_start\<close>, \<^verbatim>\<open>idle\<close> and \<^verbatim>\<open>kernel_thread\<close> (they wait on a
  semaphore of synch.c or never return), \<^verbatim>\<open>thread_print_stats\<close>, \<^verbatim>\<open>thread_foreach\<close>
  and the accessors that are not implemented (\<^verbatim>\<open>thread_get_nice\<close> and the like).
\<close>

subsection \<open>Data\<close>

datatype thread_status = THREAD_RUNNING | THREAD_READY | THREAD_BLOCKED | THREAD_DYING

datatype intr_level = INTR_OFF | INTR_ON

type_synonym tptr = nat

type_synonym tid_t = "32 word"

text \<open>The frames \<^verbatim>\<open>thread_create\<close> pushes on the stack of a new thread.\<close>

datatype frame =
    Kernel_thread_frame nat nat nat
  | Switch_entry_frame nat
  | Switch_threads_frame nat nat

text \<open>
  \<^verbatim>\<open>struct thread\<close>. The list elements \<^verbatim>\<open>allelem\<close> and \<^verbatim>\<open>elem\<close> are the
  memberships in the lists of the kernel state. \<open>stack\<close> holds the frames below the top
  of the page, innermost first. \<open>pagedir\<close> is read only in a build with
  \<^verbatim>\<open>USERPROG\<close>. An \<^verbatim>\<open>int64_t\<close> tick count is only copied and compared, never
  computed with, so it is an \<open>int\<close>.
\<close>

record thread =
  tid :: tid_t
  status :: thread_status
  name :: string
  stack :: "frame list"
  priority :: int
  wakeup_time_ticks :: int
  pagedir :: nat
  magic :: "32 word"

text \<open>
  The static variables of thread.c, with the machine state the functions read and write:
  \<open>mem\<close> (the thread structure at each page), \<open>esp_page\<close> (the page the stack pointer
  is in), the interrupt level, whether an external interrupt is being handled, the
  yield-on-return flag of the interrupt handler, and the pages given back to the page
  allocator, oldest first.
\<close>

record kernel =
  mem :: "tptr \<Rightarrow> thread"
  esp_page :: tptr
  ready_list :: "tptr list"
  sleeping_list :: "tptr list"
  sleeping_list_min_wakeup_time_ticks :: int
  all_list :: "tptr list"
  idle_thread :: tptr
  initial_thread :: tptr
  next_tid :: tid_t
  idle_ticks :: "64 word"
  kernel_ticks :: "64 word"
  user_ticks :: "64 word"
  thread_ticks :: "32 word"
  intr_level :: intr_level
  intr_context :: bool
  yield_on_return :: bool
  freed_pages :: "tptr list"

datatype panic =
    Init_intr_level
  | Current_is_thread | Current_status | Current_wakeup_time
  | Create_function
  | Block_intr_context | Block_intr_level
  | Unblock_is_thread | Unblock_status
  | Sleep_wakeup_time | Sleep_intr_context
  | Wakeup_cache | Wakeup_front_null | Wakeup_front_status | Wakeup_front_wakeup_time
  | Exit_intr_context | Exit_not_reached
  | Yield_intr_context
  | Init_thread_null | Init_thread_priority | Init_thread_name
  | Alloc_frame_is_thread | Alloc_frame_size
  | Tail_intr_level | Tail_prev_is_cur
  | Schedule_intr_level | Schedule_status | Schedule_next
  | Insert_intr_context | Insert_intr_level | Insert_null | Insert_status
  | Insert_wakeup_time | Insert_cache

subsection \<open>Constants\<close>

definition NULL :: nat where
  "NULL = 0"

definition THREAD_MAGIC :: "32 word" where
  "THREAD_MAGIC = 0xcd6abf4b"

definition THREAD_NOT_SLEEPING :: int where
  "THREAD_NOT_SLEEPING = - 1"

definition SLEEPING_QUEUE_EMPTY :: int where
  "SLEEPING_QUEUE_EMPTY = - 1"

definition TIME_SLICE :: "32 word" where
  "TIME_SLICE = 4"

definition TID_ERROR :: tid_t where
  "TID_ERROR = - 1"

definition PRI_MIN :: int where
  "PRI_MIN = 0"

definition PRI_DEFAULT :: int where
  "PRI_DEFAULT = 31"

definition PRI_MAX :: int where
  "PRI_MAX = 63"

subsection \<open>The collaborators of thread.c\<close>

text \<open>
  Modelled from the spec: \<^verbatim>\<open>intr_disable\<close> of threads/interrupt.c, which is not
  among the sources (\<open>intr_disable() \<rightarrow> prev_level\<close>).
\<close>

definition intr_disable :: "kernel \<Rightarrow> intr_level \<times> kernel" where
  "intr_disable s = (intr_level s, s\<lparr>intr_level := INTR_OFF\<rparr>)"

text \<open>
  Modelled from the spec: \<^verbatim>\<open>intr_set_level\<close> of threads/interrupt.c
  (\<open>intr_set_level(prev_level)\<close>).
\<close>

definition intr_set_level :: "intr_level \<Rightarrow> kernel \<Rightarrow> kernel" where
  "intr_set_level l s = s\<lparr>intr_level := l\<rparr>"

text \<open>
  Modelled from the spec: \<^verbatim>\<open>intr_yield_on_return\<close> of threads/interrupt.c (it
  \<open>sets a flag that the interrupt-return epilogue reads\<close>).
\<close>

definition intr_yield_on_return :: "kernel \<Rightarrow> kernel" where
  "intr_yield_on_return s = s\<lparr>yield_on_return := True\<rparr>"

text \<open>
  Modelled from the spec: \<^verbatim>\<open>palloc_free_page\<close> of threads/palloc.c
  (\<open>page_free(page)\<close> releases it); the model records the call.
\<close>

definition palloc_free_page :: "tptr \<Rightarrow> kernel \<Rightarrow> kernel" where
  "palloc_free_page p s = s\<lparr>freed_pages := freed_pages s @ [p]\<rparr>"

text \<open>
  Modelled from the spec: \<^verbatim>\<open>switch_threads\<close> of threads/switch.S
  (\<open>switch(prev, next) \<rightarrow> prev_from_their_view\<close>: the call returns in the new thread's
  context, yielding the thread it switched from).
\<close>

definition switch_threads :: "tptr \<Rightarrow> tptr \<Rightarrow> kernel \<Rightarrow> tptr \<times> kernel" where
  "switch_threads cur nxt s = (cur, s\<lparr>esp_page := nxt\<rparr>)"

text \<open>
  Modelled from the spec: \<^verbatim>\<open>list_insert_ordered\<close> of lib/kernel/list.c (\<open>Insert
  into sleeping in ascending order\<close>): the element goes before the first element it is
  less than.
\<close>

fun list_insert_ordered :: "tptr list \<Rightarrow> tptr \<Rightarrow> (tptr \<Rightarrow> tptr \<Rightarrow> bool) \<Rightarrow> tptr list" where
  "list_insert_ordered [] elem lessf = [elem]"
| "list_insert_ordered (e # es) elem lessf =
     (if lessf elem e then elem # e # es
      else e # list_insert_ordered es elem lessf)"

text \<open>
  Modelled from the spec: \<^verbatim>\<open>list_push_back (&ready_list, &t->elem)\<close> of
  lib/kernel/list.c, for a thread handed in by a caller. A thread has one element for
  the ready list, the sleeping list and the wait lists of synch.c (\<open>queue_link\<close>:
  \<open>membership link in exactly one of\<close> them), and \<^verbatim>\<open>list_push_back\<close> overwrites its
  two pointers. If the element was still linked in the sleeping list, the sleeper before
  it there (or the head) keeps pointing at it, and its own pointer now leads to the tail
  of the ready list. A walk of the sleeping list from its front then meets the sleepers
  before \<open>t\<close>, then \<open>t\<close>, and leaves the list there: the sleepers behind \<open>t\<close>
  are cut off, and \<open>t\<close> is met by the walks of both lists. \<open>cut_at\<close> is that walk.
  The ready list holds the ready threads, which \<^verbatim>\<open>thread_unblock\<close> turns away (it
  asserts that \<open>t\<close> is blocked): \<open>t\<close> goes to its back.
\<close>

fun cut_at :: "tptr \<Rightarrow> tptr list \<Rightarrow> tptr list" where
  "cut_at t [] = []"
| "cut_at t (x # xs) = (if x = t then [x] else x # cut_at t xs)"

definition ready_list_push_back :: "tptr \<Rightarrow> kernel \<Rightarrow> kernel" where
  "ready_list_push_back t s =
     s\<lparr>ready_list := ready_list s @ [t], sleeping_list := cut_at t (sleeping_list s)\<rparr>"

subsection \<open>Helpers of thread.c\<close>

definition thread_upd :: "tptr \<Rightarrow> (thread \<Rightarrow> thread) \<Rightarrow> kernel \<Rightarrow> kernel" where
  "thread_upd t f s = s\<lparr>mem := (mem s)(t := f (mem s t))\<rparr>"

definition running_thread :: "kernel \<Rightarrow> tptr" where
  "running_thread s = esp_page s"

definition is_thread :: "tptr \<Rightarrow> kernel \<Rightarrow> bool" where
  "is_thread t s = (t \<noteq> NULL \<and> magic (mem s t) = THREAD_MAGIC)"

text \<open>
  \<^verbatim>\<open>allocate_tid\<close>: \<^verbatim>\<open>tid_lock\<close> only makes the increment atomic and is left out.
\<close>

definition allocate_tid :: "kernel \<Rightarrow> tid_t \<times> kernel" where
  "allocate_tid s = (next_tid s, s\<lparr>next_tid := next_tid s + 1\<rparr>)"

definition wakeup_time_ticks_less_than :: "kernel \<Rightarrow> tptr \<Rightarrow> tptr \<Rightarrow> bool" where
  "wakeup_time_ticks_less_than s a b =
     (wakeup_time_ticks (mem s a) < wakeup_time_ticks (mem s b))"

text \<open>\<^verbatim>\<open>init_thread\<close>: a \<^verbatim>\<open>NULL\<close> name is \<open>None\<close>.\<close>

definition init_thread :: "tptr \<Rightarrow> string option \<Rightarrow> int \<Rightarrow> kernel \<Rightarrow> panic + kernel" where
  "init_thread t nm prio s =
     (if t = NULL then Inl Init_thread_null
      else if \<not> (PRI_MIN \<le> prio \<and> prio \<le> PRI_MAX) then Inl Init_thread_priority
      else case nm of
        None \<Rightarrow> Inl Init_thread_name
      | Some n \<Rightarrow>
          let s1 = thread_upd t (\<lambda>_. \<lparr>tid = 0, status = THREAD_BLOCKED, name = take 15 n,
                     stack = [], priority = prio, wakeup_time_ticks = THREAD_NOT_SLEEPING,
                     pagedir = NULL, magic = THREAD_MAGIC\<rparr>) s;
              (old_level, s2) = intr_disable s1;
              s3 = s2\<lparr>all_list := all_list s2 @ [t]\<rparr>
          in Inr (intr_set_level old_level s3))"

definition alloc_frame :: "tptr \<Rightarrow> nat \<Rightarrow> frame \<Rightarrow> kernel \<Rightarrow> panic + kernel" where
  "alloc_frame t sz fr s =
     (if \<not> is_thread t s then Inl Alloc_frame_is_thread
      else if sz mod 4 \<noteq> 0 then Inl Alloc_frame_size
      else Inr (thread_upd t (\<lambda>th. th\<lparr>stack := fr # stack th\<rparr>) s))"

definition next_thread_to_run :: "kernel \<Rightarrow> tptr \<times> kernel" where
  "next_thread_to_run s =
     (case ready_list s of
        [] \<Rightarrow> (idle_thread s, s)
      | t # rest \<Rightarrow> (t, s\<lparr>ready_list := rest\<rparr>))"

text \<open>
  \<^verbatim>\<open>thread_schedule_tail\<close>; \<^verbatim>\<open>process_activate\<close> of a build with \<^verbatim>\<open>USERPROG\<close>
  touches nothing of this state. The condition on \<open>prev\<close> is read after the running
  thread has been marked, as in the source.
\<close>

definition thread_schedule_tail :: "tptr \<Rightarrow> kernel \<Rightarrow> panic + kernel" where
  "thread_schedule_tail prev s =
     (let cur = running_thread s in
      if intr_level s \<noteq> INTR_OFF then Inl Tail_intr_level
      else
        let s1 = thread_upd cur (\<lambda>th. th\<lparr>status := THREAD_RUNNING\<rparr>) s;
            s2 = s1\<lparr>thread_ticks := 0\<rparr>
        in if prev \<noteq> NULL \<and> status (mem s2 prev) = THREAD_DYING \<and> prev \<noteq> initial_thread s2
           then (if prev = cur then Inl Tail_prev_is_cur else Inr (palloc_free_page prev s2))
           else Inr s2)"

definition schedule :: "kernel \<Rightarrow> panic + kernel" where
  "schedule s =
     (let cur = running_thread s;
          (nxt, s1) = next_thread_to_run s
      in if intr_level s1 \<noteq> INTR_OFF then Inl Schedule_intr_level
         else if status (mem s1 cur) = THREAD_RUNNING then Inl Schedule_status
         else if \<not> is_thread nxt s1 then Inl Schedule_next
         else
           let (prev, s2) = (if cur \<noteq> nxt then switch_threads cur nxt s1 else (NULL, s1))
           in thread_schedule_tail prev s2)"

text \<open>
  A caller of \<^verbatim>\<open>schedule\<close> runs on only when it is dispatched again. The functions
  below that end with \<^verbatim>\<open>intr_set_level (old_level)\<close> after \<^verbatim>\<open>schedule ()\<close> return the
  state at the end of the dispatch: when \<^verbatim>\<open>schedule\<close> kept the caller running, the
  caller restores its interrupt level at once; when it switched, the state is the one
  the next thread finds at the end of \<^verbatim>\<open>thread_schedule_tail\<close>.
\<close>

definition resume :: "tptr \<Rightarrow> intr_level \<Rightarrow> kernel \<Rightarrow> kernel" where
  "resume cur old_level s =
     (if running_thread s = cur then intr_set_level old_level s else s)"

definition sleeping_queue_insert_ordered :: "tptr \<Rightarrow> kernel \<Rightarrow> panic + kernel" where
  "sleeping_queue_insert_ordered t s =
     (if intr_context s then Inl Insert_intr_context
      else if intr_level s \<noteq> INTR_OFF then Inl Insert_intr_level
      else if t = NULL then Inl Insert_null
      else if status (mem s t) \<noteq> THREAD_BLOCKED then Inl Insert_status
      else if \<not> 0 < wakeup_time_ticks (mem s t) then Inl Insert_wakeup_time
      else if \<not> (sleeping_list_min_wakeup_time_ticks s \<noteq> SLEEPING_QUEUE_EMPTY
                 \<or> sleeping_list s = []) then Inl Insert_cache
      else if sleeping_list_min_wakeup_time_ticks s = SLEEPING_QUEUE_EMPTY
              \<or> wakeup_time_ticks (mem s t) \<le> sleeping_list_min_wakeup_time_ticks s
      then Inr (s\<lparr>sleeping_list := t # sleeping_list s,
                  sleeping_list_min_wakeup_time_ticks := wakeup_time_ticks (mem s t)\<rparr>)
      else Inr (s\<lparr>sleeping_list :=
                    list_insert_ordered (sleeping_list s) t (wakeup_time_ticks_less_than s)\<rparr>))"

subsection \<open>The interface of thread.c\<close>

definition thread_init :: "kernel \<Rightarrow> panic + kernel" where
  "thread_init s =
     (if intr_level s \<noteq> INTR_OFF then Inl Init_intr_level
      else
        let s1 = s\<lparr>ready_list := [], sleeping_list := [],
                   sleeping_list_min_wakeup_time_ticks := SLEEPING_QUEUE_EMPTY,
                   all_list := []\<rparr>;
            s2 = s1\<lparr>initial_thread := running_thread s1\<rparr>
        in case init_thread (initial_thread s2) (Some ''main'') PRI_DEFAULT s2 of
             Inl e \<Rightarrow> Inl e
           | Inr s3 \<Rightarrow>
               let s4 = thread_upd (initial_thread s3) (\<lambda>th. th\<lparr>status := THREAD_RUNNING\<rparr>) s3;
                   (new_tid, s5) = allocate_tid s4
               in Inr (thread_upd (initial_thread s5) (\<lambda>th. th\<lparr>tid := new_tid\<rparr>) s5))"

definition threads_ready :: "kernel \<Rightarrow> nat \<times> kernel" where
  "threads_ready s =
     (let (old_level, s1) = intr_disable s;
          ready_thread_count = length (ready_list s1)
      in (ready_thread_count, intr_set_level old_level s1))"

definition threads_sleeping :: "kernel \<Rightarrow> nat \<times> kernel" where
  "threads_sleeping s =
     (let (old_level, s1) = intr_disable s
      in if sleeping_list_min_wakeup_time_ticks s1 = SLEEPING_QUEUE_EMPTY then (0, s1)
         else
           let sleeping_thread_count = length (sleeping_list s1)
           in (sleeping_thread_count, intr_set_level old_level s1))"

definition thread_current :: "kernel \<Rightarrow> panic + tptr" where
  "thread_current s =
     (let t = running_thread s in
      if \<not> is_thread t s then Inl Current_is_thread
      else if status (mem s t) \<noteq> THREAD_RUNNING then Inl Current_status
      else if wakeup_time_ticks (mem s t) \<noteq> THREAD_NOT_SLEEPING then Inl Current_wakeup_time
      else Inr t)"

text \<open>\<^verbatim>\<open>thread_tick\<close>; \<open>userprog\<close> says whether the build defines \<^verbatim>\<open>USERPROG\<close>.\<close>

definition thread_tick :: "bool \<Rightarrow> kernel \<Rightarrow> panic + kernel" where
  "thread_tick userprog s =
     (case thread_current s of
        Inl e \<Rightarrow> Inl e
      | Inr t \<Rightarrow>
          let s1 = (if t = idle_thread s then s\<lparr>idle_ticks := idle_ticks s + 1\<rparr>
                    else if userprog \<and> pagedir (mem s t) \<noteq> NULL
                    then s\<lparr>user_ticks := user_ticks s + 1\<rparr>
                    else s\<lparr>kernel_ticks := kernel_ticks s + 1\<rparr>);
              s2 = s1\<lparr>thread_ticks := thread_ticks s1 + 1\<rparr>
          in Inr (if thread_ticks s2 \<ge> TIME_SLICE then intr_yield_on_return s2 else s2))"

text \<open>
  \<^verbatim>\<open>thread_unblock\<close>, statement by statement: the state at the call, after
  \<^verbatim>\<open>intr_disable\<close>, after \<^verbatim>\<open>list_push_back\<close>, after the status is written and
  after \<^verbatim>\<open>intr_set_level\<close>, as far as the call gets, with the assertion that stops
  it.
\<close>

definition thread_unblock_states :: "tptr \<Rightarrow> kernel \<Rightarrow> kernel list \<times> panic option" where
  "thread_unblock_states t s =
     (if \<not> is_thread t s then ([s], Some Unblock_is_thread)
      else
        let (old_level, s1) = intr_disable s
        in if status (mem s1 t) \<noteq> THREAD_BLOCKED then ([s, s1], Some Unblock_status)
           else
             let s2 = ready_list_push_back t s1;
                 s3 = thread_upd t (\<lambda>th. th\<lparr>status := THREAD_READY\<rparr>) s2;
                 s4 = intr_set_level old_level s3
             in ([s, s1, s2, s3, s4], None))"

text \<open>\<^verbatim>\<open>thread_unblock\<close>: the state it returns in, or the assertion that failed.\<close>

definition thread_unblock :: "tptr \<Rightarrow> kernel \<Rightarrow> panic + kernel" where
  "thread_unblock t s =
     (case thread_unblock_states t s of
        (states, Some e) \<Rightarrow> Inl e
      | (states, None) \<Rightarrow> Inr (last states))"

text \<open>
  \<^verbatim>\<open>thread_create\<close>; \<open>page\<close> is what \<^verbatim>\<open>palloc_get_page (PAL_ZERO)\<close> returns,
  \<^verbatim>\<open>NULL\<close> when no page is left. The addresses of \<^verbatim>\<open>kernel_thread\<close> and
  \<^verbatim>\<open>switch_entry\<close> and the sizes of the frames of switch.h are parameters.
\<close>

record layout =
  kernel_thread_addr :: nat
  switch_entry_addr :: nat
  sizeof_kf :: nat
  sizeof_ef :: nat
  sizeof_sf :: nat

definition thread_create ::
  "layout \<Rightarrow> tptr \<Rightarrow> string option \<Rightarrow> int \<Rightarrow> nat \<Rightarrow> nat \<Rightarrow> kernel \<Rightarrow> panic + (tid_t \<times> kernel)" where
  "thread_create lay page nm prio function aux s =
     (if function = NULL then Inl Create_function
      else
        let t = page in
        if t = NULL then Inr (TID_ERROR, s)
        else case init_thread t nm prio s of
          Inl e \<Rightarrow> Inl e
        | Inr s1 \<Rightarrow>
            let (new_tid, s2) = allocate_tid s1;
                s3 = thread_upd t (\<lambda>th. th\<lparr>tid := new_tid\<rparr>) s2;
                (old_level, s4) = intr_disable s3
            in case alloc_frame t (sizeof_kf lay) (Kernel_thread_frame NULL function aux) s4 of
                 Inl e \<Rightarrow> Inl e
               | Inr s5 \<Rightarrow>
                  (case alloc_frame t (sizeof_ef lay)
                          (Switch_entry_frame (kernel_thread_addr lay)) s5 of
                     Inl e \<Rightarrow> Inl e
                   | Inr s6 \<Rightarrow>
                      (case alloc_frame t (sizeof_sf lay)
                              (Switch_threads_frame (switch_entry_addr lay) 0) s6 of
                         Inl e \<Rightarrow> Inl e
                       | Inr s7 \<Rightarrow>
                          (case thread_unblock t (intr_set_level old_level s7) of
                             Inl e \<Rightarrow> Inl e
                           | Inr s8 \<Rightarrow> Inr (new_tid, s8)))))"

definition thread_block :: "kernel \<Rightarrow> panic + kernel" where
  "thread_block s =
     (if intr_context s then Inl Block_intr_context
      else if intr_level s \<noteq> INTR_OFF then Inl Block_intr_level
      else case thread_current s of
        Inl e \<Rightarrow> Inl e
      | Inr cur \<Rightarrow> schedule (thread_upd cur (\<lambda>th. th\<lparr>status := THREAD_BLOCKED\<rparr>) s))"

text \<open>\<^verbatim>\<open>thread_sleep\<close>; \<open>now\<close> is what \<^verbatim>\<open>timer_ticks ()\<close> returns.\<close>

definition thread_sleep :: "int \<Rightarrow> int \<Rightarrow> kernel \<Rightarrow> panic + kernel" where
  "thread_sleep wakeup_time now s =
     (if \<not> 0 \<le> wakeup_time then Inl Sleep_wakeup_time
      else if wakeup_time < now then Inr s
      else case thread_current s of
        Inl e \<Rightarrow> Inl e
      | Inr cur \<Rightarrow>
          if intr_context s then Inl Sleep_intr_context
          else
            let (old_level, s1) = intr_disable s
            in if cur \<noteq> idle_thread s1
               then
                 let s2 = thread_upd cur (\<lambda>th. th\<lparr>status := THREAD_BLOCKED\<rparr>) s1;
                     s3 = thread_upd cur (\<lambda>th. th\<lparr>wakeup_time_ticks := wakeup_time\<rparr>) s2
                 in case sleeping_queue_insert_ordered cur s3 of
                      Inl e \<Rightarrow> Inl e
                    | Inr s4 \<Rightarrow>
                       (case schedule s4 of
                          Inl e \<Rightarrow> Inl e
                        | Inr s5 \<Rightarrow> Inr (resume cur old_level s5))
               else Inr (intr_set_level old_level s1))"

text \<open>The loop of \<^verbatim>\<open>thread_wakeup\<close>, one iteration for each call.\<close>

function wakeup_loop :: "int \<Rightarrow> kernel \<Rightarrow> panic + kernel" where
  "wakeup_loop os_timer_ticks s =
     (case sleeping_list s of
        [] \<Rightarrow> Inr s
      | front_thread # rest \<Rightarrow>
          if front_thread = NULL then Inl Wakeup_front_null
          else if status (mem s front_thread) \<noteq> THREAD_BLOCKED then Inl Wakeup_front_status
          else if \<not> 0 < wakeup_time_ticks (mem s front_thread)
          then Inl Wakeup_front_wakeup_time
          else if wakeup_time_ticks (mem s front_thread) > os_timer_ticks
          then Inr (s\<lparr>sleeping_list_min_wakeup_time_ticks :=
                        wakeup_time_ticks (mem s front_thread)\<rparr>)
          else
            let s1 = s\<lparr>sleeping_list := rest\<rparr>;
                s2 = thread_upd front_thread
                       (\<lambda>th. th\<lparr>wakeup_time_ticks := THREAD_NOT_SLEEPING\<rparr>) s1
            in case thread_unblock front_thread s2 of
                 Inl e \<Rightarrow> Inl e
               | Inr s3 \<Rightarrow> wakeup_loop os_timer_ticks s3)"
  by pat_completeness auto

termination wakeup_loop
proof (relation "measure (\<lambda>(n, s). length (sleeping_list s))")
  show "wf (measure (\<lambda>(n, s). length (sleeping_list s)))"
    by simp
next
  fix os_timer_ticks :: int and s :: kernel and front_thread rest x xa s3
  assume q: "sleeping_list s = front_thread # rest"
    and x: "x = s\<lparr>sleeping_list := rest\<rparr>"
    and xa: "xa = thread_upd front_thread
                    (\<lambda>th. th\<lparr>wakeup_time_ticks := THREAD_NOT_SLEEPING\<rparr>) x"
    and u: "thread_unblock front_thread xa = Inr s3"
  have "sleeping_list s3 = cut_at front_thread (sleeping_list xa)"
    using u
    by (auto simp: thread_unblock_def thread_unblock_states_def ready_list_push_back_def
        intr_disable_def intr_set_level_def thread_upd_def Let_def split: if_splits)
  then have "sleeping_list s3 = cut_at front_thread rest"
    using x xa by (simp add: thread_upd_def)
  moreover have "length (cut_at front_thread rest) \<le> length rest"
    by (induction rest) simp_all
  ultimately show "((os_timer_ticks, s3), (os_timer_ticks, s))
      \<in> measure (\<lambda>(n, s). length (sleeping_list s))"
    using q by simp
qed

declare wakeup_loop.simps [simp del]

text \<open>\<^verbatim>\<open>thread_wakeup\<close>; \<open>os_timer_ticks\<close> is what \<^verbatim>\<open>timer_ticks ()\<close> returns.\<close>

definition thread_wakeup :: "int \<Rightarrow> kernel \<Rightarrow> panic + kernel" where
  "thread_wakeup os_timer_ticks s =
     (if \<not> (sleeping_list_min_wakeup_time_ticks s \<noteq> SLEEPING_QUEUE_EMPTY
             \<or> sleeping_list s = []) then Inl Wakeup_cache
      else if sleeping_list_min_wakeup_time_ticks s = SLEEPING_QUEUE_EMPTY
              \<or> os_timer_ticks < sleeping_list_min_wakeup_time_ticks s
      then Inr s
      else
        let (old_level, s1) = intr_disable s
        in case wakeup_loop os_timer_ticks s1 of
             Inl e \<Rightarrow> Inl e
           | Inr s2 \<Rightarrow>
               let s3 = (if sleeping_list s2 = []
                         then s2\<lparr>sleeping_list_min_wakeup_time_ticks := SLEEPING_QUEUE_EMPTY\<rparr>
                         else s2)
               in Inr (intr_set_level old_level s3))"

definition thread_name :: "kernel \<Rightarrow> panic + string" where
  "thread_name s =
     (case thread_current s of Inl e \<Rightarrow> Inl e | Inr t \<Rightarrow> Inr (name (mem s t)))"

definition thread_tid :: "kernel \<Rightarrow> panic + tid_t" where
  "thread_tid s =
     (case thread_current s of Inl e \<Rightarrow> Inl e | Inr t \<Rightarrow> Inr (tid (mem s t)))"

text \<open>
  \<^verbatim>\<open>thread_exit\<close> never returns to its caller: the state returned is the one the next
  thread finds, and \<^verbatim>\<open>NOT_REACHED\<close> fails when \<^verbatim>\<open>schedule\<close> comes back in the
  caller. \<^verbatim>\<open>process_exit\<close> of a build with \<^verbatim>\<open>USERPROG\<close> touches nothing of this
  state.
\<close>

definition thread_exit :: "kernel \<Rightarrow> panic + kernel" where
  "thread_exit s =
     (if intr_context s then Inl Exit_intr_context
      else
        let (old_level, s1) = intr_disable s
        in case thread_current s1 of
             Inl e \<Rightarrow> Inl e
           | Inr c1 \<Rightarrow>
               let s2 = s1\<lparr>all_list := remove1 c1 (all_list s1)\<rparr>
               in case thread_current s2 of
                    Inl e \<Rightarrow> Inl e
                  | Inr c2 \<Rightarrow>
                     (case schedule (thread_upd c2 (\<lambda>th. th\<lparr>status := THREAD_DYING\<rparr>) s2) of
                        Inl e \<Rightarrow> Inl e
                      | Inr s3 \<Rightarrow>
                          if running_thread s3 = c2 then Inl Exit_not_reached else Inr s3))"

definition thread_yield :: "kernel \<Rightarrow> panic + kernel" where
  "thread_yield s =
     (case thread_current s of
        Inl e \<Rightarrow> Inl e
      | Inr cur \<Rightarrow>
          if intr_context s then Inl Yield_intr_context
          else
            let (old_level, s1) = intr_disable s;
                s2 = (if cur \<noteq> idle_thread s1
                      then s1\<lparr>ready_list := ready_list s1 @ [cur]\<rparr> else s1);
                s3 = thread_upd cur (\<lambda>th. th\<lparr>status := THREAD_READY\<rparr>) s2
            in case schedule s3 of
                 Inl e \<Rightarrow> Inl e
               | Inr s4 \<Rightarrow> Inr (resume cur old_level s4))"

definition thread_set_priority :: "int \<Rightarrow> kernel \<Rightarrow> panic + kernel" where
  "thread_set_priority new_priority s =
     (case thread_current s of
        Inl e \<Rightarrow> Inl e
      | Inr t \<Rightarrow> Inr (thread_upd t (\<lambda>th. th\<lparr>priority := new_priority\<rparr>) s))"

definition thread_get_priority :: "kernel \<Rightarrow> panic + int" where
  "thread_get_priority s =
     (case thread_current s of Inl e \<Rightarrow> Inl e | Inr t \<Rightarrow> Inr (priority (mem s t)))"

subsection \<open>The dispatch in closed form\<close>

text \<open>
  What \<^verbatim>\<open>schedule\<close> does when its assertions hold, written as one state update;
  \<open>schedule_eq\<close> below proves it equal to the function above. \<open>next_of\<close> is the
  thread \<^verbatim>\<open>next_thread_to_run\<close> returns.
\<close>

definition next_of :: "kernel \<Rightarrow> tptr" where
  "next_of s = fst (next_thread_to_run s)"

definition dispatched :: "kernel \<Rightarrow> kernel" where
  "dispatched s =
     (let cur = running_thread s; nxt = next_of s in
      s\<lparr>esp_page := nxt, ready_list := tl (ready_list s),
        mem := (mem s)(nxt := (mem s nxt)\<lparr>status := THREAD_RUNNING\<rparr>),
        thread_ticks := 0,
        freed_pages := freed_pages s @
          (if cur \<noteq> nxt \<and> cur \<noteq> NULL \<and> status (mem s cur) = THREAD_DYING
              \<and> cur \<noteq> initial_thread s then [cur] else [])\<rparr>)"

subsection \<open>The sleeping queue and its cache\<close>

text \<open>
  \<open>wake_of\<close> reads the wake-up time of a thread. \<open>sleeping_queue_ok\<close> is the invariant
  of the pair (\<^verbatim>\<open>sleeping_list\<close>, \<^verbatim>\<open>sleeping_list_min_wakeup_time_ticks\<close>): the list is
  sorted ascending by wake-up time; the cache is \<^verbatim>\<open>SLEEPING_QUEUE_EMPTY\<close> exactly when
  the list is empty and otherwise the wake-up time of the front; no thread is linked in
  twice; and every wake-up time in the list is positive, as the assertions in
  \<^verbatim>\<open>sleeping_queue_insert_ordered\<close> and \<^verbatim>\<open>thread_wakeup\<close> demand.
\<close>

definition wake_of :: "kernel \<Rightarrow> tptr \<Rightarrow> int" where
  "wake_of s t = wakeup_time_ticks (mem s t)"

definition sleeping_queue_ok :: "kernel \<Rightarrow> bool" where
  "sleeping_queue_ok s \<longleftrightarrow>
     sorted (map (wake_of s) (sleeping_list s))
     \<and> ((sleeping_list_min_wakeup_time_ticks s = SLEEPING_QUEUE_EMPTY) = (sleeping_list s = []))
     \<and> (case sleeping_list s of
          [] \<Rightarrow> True
        | t # _ \<Rightarrow> sleeping_list_min_wakeup_time_ticks s = wake_of s t)
     \<and> distinct (sleeping_list s)
     \<and> (\<forall>t\<in>set (sleeping_list s). 0 < wake_of s t)"

text \<open>
  What a sweep of \<^verbatim>\<open>thread_wakeup\<close> leaves behind, written as one state update: the
  sleepers at the front that are due move to the back of the ready list, in queue order,
  with their wake-up time reset and their status ready; \<open>m\<close> is the value of the cache
  when nobody is left. \<open>wakeup_loop_result\<close> and \<open>thread_wakeup_result\<close> below prove it
  equal to what the functions above compute.
\<close>

definition drained :: "int \<Rightarrow> int \<Rightarrow> kernel \<Rightarrow> kernel" where
  "drained m now s =
     (let due = takeWhile (\<lambda>t. wake_of s t \<le> now) (sleeping_list s);
          rest = dropWhile (\<lambda>t. wake_of s t \<le> now) (sleeping_list s)
      in s\<lparr>sleeping_list := rest, ready_list := ready_list s @ due,
           mem := (\<lambda>t. if t \<in> set due
                        then (mem s t)\<lparr>wakeup_time_ticks := THREAD_NOT_SLEEPING,
                                       status := THREAD_READY\<rparr>
                        else mem s t),
           sleeping_list_min_wakeup_time_ticks :=
             (case rest of [] \<Rightarrow> m | t # _ \<Rightarrow> wake_of s t)\<rparr>)"

subsection \<open>Calls after a thread has died\<close>

text \<open>
  \<open>reaped d s\<close>: the dying thread \<open>d\<close> is off the CPU and in no queue of thread.c.
  \<open>returns_to d s s'\<close>: some call of the interface of thread.c, made in state \<open>s\<close>,
  returns with state \<open>s'\<close>; a thread created meanwhile does not get the page of \<open>d\<close>.
  \<open>kept d s s'\<close>: in \<open>s'\<close> the thread is still reaped and its page has been freed as
  often as in \<open>s\<close>.
\<close>

definition reaped :: "tptr \<Rightarrow> kernel \<Rightarrow> bool" where
  "reaped d s \<longleftrightarrow>
     running_thread s \<noteq> d \<and> d \<notin> set (ready_list s) \<and> d \<notin> set (sleeping_list s)
     \<and> d \<noteq> idle_thread s \<and> status (mem s d) = THREAD_DYING"

inductive returns_to :: "tptr \<Rightarrow> kernel \<Rightarrow> kernel \<Rightarrow> bool" for d :: tptr where
  tick: "thread_tick userprog s = Inr s' \<Longrightarrow> returns_to d s s'"
| create: "thread_create lay page nm prio function aux s = Inr (new_tid, s') \<Longrightarrow> page \<noteq> d \<Longrightarrow>
     returns_to d s s'"
| block: "thread_block s = Inr s' \<Longrightarrow> returns_to d s s'"
| unblock: "thread_unblock t s = Inr s' \<Longrightarrow> returns_to d s s'"
| sleep: "thread_sleep wakeup_time now s = Inr s' \<Longrightarrow> returns_to d s s'"
| wakeup: "thread_wakeup now s = Inr s' \<Longrightarrow> returns_to d s s'"
| exit: "thread_exit s = Inr s' \<Longrightarrow> returns_to d s s'"
| yield: "thread_yield s = Inr s' \<Longrightarrow> returns_to d s s'"
| set_priority: "thread_set_priority new_priority s = Inr s' \<Longrightarrow> returns_to d s s'"
| ready: "threads_ready s = (n, s') \<Longrightarrow> returns_to d s s'"
| sleeping: "threads_sleeping s = (n, s') \<Longrightarrow> returns_to d s s'"

definition kept :: "tptr \<Rightarrow> kernel \<Rightarrow> kernel \<Rightarrow> bool" where
  "kept d s s' \<longleftrightarrow>
     reaped d s' \<and> count_list (freed_pages s') d = count_list (freed_pages s) d"

subsection \<open>Example states\<close>

text \<open>
  A kernel after boot: page 1 is the initial thread \<^verbatim>\<open>main\<close> (running), page 2 the
  idle thread (blocked in \<^verbatim>\<open>idle\<close>), pages 3 and 4 sleep until ticks 5 and 9, page 5
  is ready, page 6 is blocked outside thread.c (on a semaphore).
\<close>

definition zeroed :: thread where
  "zeroed = \<lparr>tid = 0, status = THREAD_RUNNING, name = [], stack = [], priority = 0,
              wakeup_time_ticks = 0, pagedir = 0, magic = 0\<rparr>"

definition a_thread :: "tid_t \<Rightarrow> thread_status \<Rightarrow> int \<Rightarrow> thread" where
  "a_thread i st w = \<lparr>tid = i, status = st, name = ''worker'', stack = [],
                       priority = PRI_DEFAULT, wakeup_time_ticks = w, pagedir = NULL,
                       magic = THREAD_MAGIC\<rparr>"

definition example_mem :: "tptr \<Rightarrow> thread" where
  "example_mem = (\<lambda>_. zeroed)
     (1 := a_thread 1 THREAD_RUNNING (- 1),
      2 := a_thread 2 THREAD_BLOCKED (- 1),
      3 := a_thread 3 THREAD_BLOCKED 5,
      4 := a_thread 4 THREAD_BLOCKED 9,
      5 := a_thread 5 THREAD_READY (- 1),
      6 := a_thread 6 THREAD_BLOCKED (- 1))"

definition example_kernel :: kernel where
  "example_kernel =
     \<lparr>mem = example_mem, esp_page = 1, ready_list = [5], sleeping_list = [3, 4],
      sleeping_list_min_wakeup_time_ticks = 5, all_list = [1, 2, 3, 4, 5, 6],
      idle_thread = 2, initial_thread = 1, next_tid = 7, idle_ticks = 0, kernel_ticks = 0,
      user_ticks = 0, thread_ticks = 0, intr_level = INTR_ON, intr_context = False,
      yield_on_return = False, freed_pages = []\<rparr>"

text \<open>The same kernel with nobody asleep and nobody ready.\<close>

definition quiet_kernel :: kernel where
  "quiet_kernel =
     example_kernel\<lparr>mem := example_mem(3 := a_thread 3 THREAD_BLOCKED (- 1),
                                          4 := a_thread 4 THREAD_BLOCKED (- 1),
                                          5 := a_thread 5 THREAD_BLOCKED (- 1)),
                    ready_list := [], sleeping_list := [],
                    sleeping_list_min_wakeup_time_ticks := SLEEPING_QUEUE_EMPTY\<rparr>"

definition example_layout :: layout where
  "example_layout = \<lparr>kernel_thread_addr = 4096, switch_entry_addr = 8192, sizeof_kf = 12,
                       sizeof_ef = 4, sizeof_sf = 28\<rparr>"

text \<open>The running thread carries a wake-up time, as in no state the kernel reaches.\<close>

definition restless_kernel :: kernel where
  "restless_kernel = example_kernel\<lparr>mem := example_mem(1 := a_thread 1 THREAD_RUNNING 7)\<rparr>"

text \<open>The idle thread runs; and a kernel whose running thread has a page directory.\<close>

definition idling_kernel :: kernel where
  "idling_kernel =
     quiet_kernel\<lparr>esp_page := 2,
                   mem := (mem quiet_kernel)(1 := a_thread 1 THREAD_BLOCKED (- 1),
                                             2 := a_thread 2 THREAD_RUNNING (- 1))\<rparr>"

definition user_kernel :: kernel where
  "user_kernel =
     example_kernel\<lparr>mem := example_mem(1 := (a_thread 1 THREAD_RUNNING (- 1))\<lparr>pagedir := 77\<rparr>),
                     thread_ticks := 3\<rparr>"

text \<open>
  Worker 5 runs and \<^verbatim>\<open>main\<close> is ready; then worker 5 has marked itself dying and
  calls \<^verbatim>\<open>schedule\<close>; then \<^verbatim>\<open>switch_threads\<close> has switched to \<^verbatim>\<open>main\<close>.
\<close>

definition exiting_kernel :: kernel where
  "exiting_kernel =
     example_kernel\<lparr>mem := example_mem(1 := a_thread 1 THREAD_READY (- 1),
                                           5 := a_thread 5 THREAD_RUNNING (- 1)),
                     esp_page := 5, ready_list := [1]\<rparr>"

definition dying_kernel :: kernel where
  "dying_kernel =
     exiting_kernel\<lparr>mem := (mem exiting_kernel)(5 := a_thread 5 THREAD_DYING (- 1)),
                     intr_level := INTR_OFF\<rparr>"

definition switched_kernel :: kernel where
  "switched_kernel = dying_kernel\<lparr>esp_page := 1, ready_list := []\<rparr>"

text \<open>
  The machine before \<^verbatim>\<open>thread_init\<close> (static variables zeroed, interrupts off), and
  the example kernel inside \<^verbatim>\<open>thread_sleep (7)\<close>, right before the ordered insert.
\<close>

definition boot_kernel :: kernel where
  "boot_kernel =
     \<lparr>mem = (\<lambda>_. zeroed), esp_page = 1, ready_list = [], sleeping_list = [],
      sleeping_list_min_wakeup_time_ticks = 0, all_list = [], idle_thread = NULL,
      initial_thread = NULL, next_tid = 1, idle_ticks = 0, kernel_ticks = 0,
      user_ticks = 0, thread_ticks = 0, intr_level = INTR_OFF, intr_context = False,
      yield_on_return = False, freed_pages = []\<rparr>"

definition inserting_kernel :: kernel where
  "inserting_kernel =
     example_kernel\<lparr>mem := example_mem(1 := a_thread 1 THREAD_BLOCKED 7),
                     intr_level := INTR_OFF\<rparr>"

section \<open>Properties\<close>

lemmas example_defs = example_kernel_def quiet_kernel_def example_mem_def a_thread_def
  zeroed_def example_layout_def

lemmas constant_defs = NULL_def THREAD_MAGIC_def THREAD_NOT_SLEEPING_def
  SLEEPING_QUEUE_EMPTY_def TIME_SLICE_def TID_ERROR_def PRI_MIN_def PRI_DEFAULT_def PRI_MAX_def

lemmas intr_defs = intr_disable_def intr_set_level_def intr_yield_on_return_def

lemmas exit_defs = exiting_kernel_def dying_kernel_def switched_kernel_def

subsection \<open>Scheduling\<close>

lemma schedule_eq:
  "schedule s =
     (if intr_level s \<noteq> INTR_OFF then Inl Schedule_intr_level
      else if status (mem s (running_thread s)) = THREAD_RUNNING then Inl Schedule_status
      else if \<not> is_thread (next_of s) s then Inl Schedule_next
      else Inr (dispatched s))"
  by (cases "ready_list s")
    (auto simp: schedule_def next_thread_to_run_def next_of_def dispatched_def
      thread_schedule_tail_def switch_threads_def palloc_free_page_def thread_upd_def
      running_thread_def is_thread_def Let_def)


lemma thread_current_frame:
  "thread_current (s\<lparr>intr_level := l\<rparr>) = thread_current s"
  "thread_current (s\<lparr>all_list := al\<rparr>) = thread_current s"
  "thread_current (s\<lparr>ready_list := rl\<rparr>) = thread_current s"
  "thread_current (s\<lparr>sleeping_list := sl\<rparr>) = thread_current s"
  "thread_current (s\<lparr>sleeping_list_min_wakeup_time_ticks := m\<rparr>) = thread_current s"
  by (simp_all add: thread_current_def running_thread_def is_thread_def Let_def)

lemma thread_current_Inr:
  "thread_current s = Inr t \<longleftrightarrow>
     (t = running_thread s \<and> is_thread t s \<and> status (mem s t) = THREAD_RUNNING
      \<and> wakeup_time_ticks (mem s t) = THREAD_NOT_SLEEPING)"
  by (auto simp: thread_current_def Let_def)

lemma cut_at_notin:
  "t \<notin> set xs \<Longrightarrow> cut_at t xs = xs"
  by (induction xs) auto

lemma set_cut_at:
  "set (cut_at t xs) \<subseteq> set xs"
  by (induction xs) auto

lemma length_cut_at:
  "length (cut_at t xs) \<le> length xs"
  by (induction xs) auto

lemma thread_unblock_states_ok:
  "is_thread t s \<Longrightarrow> status (mem s t) = THREAD_BLOCKED \<Longrightarrow>
     thread_unblock_states t s =
       ([s,
         s\<lparr>intr_level := INTR_OFF\<rparr>,
         s\<lparr>intr_level := INTR_OFF, ready_list := ready_list s @ [t],
            sleeping_list := cut_at t (sleeping_list s)\<rparr>,
         s\<lparr>intr_level := INTR_OFF, ready_list := ready_list s @ [t],
            sleeping_list := cut_at t (sleeping_list s),
            mem := (mem s)(t := (mem s t)\<lparr>status := THREAD_READY\<rparr>)\<rparr>,
         s\<lparr>ready_list := ready_list s @ [t],
            sleeping_list := cut_at t (sleeping_list s),
            mem := (mem s)(t := (mem s t)\<lparr>status := THREAD_READY\<rparr>)\<rparr>], None)"
  by (simp add: thread_unblock_states_def ready_list_push_back_def intr_defs thread_upd_def
      Let_def)

lemma thread_unblock_ok:
  "is_thread t s \<Longrightarrow> status (mem s t) = THREAD_BLOCKED \<Longrightarrow>
     thread_unblock t s =
       Inr (s\<lparr>ready_list := ready_list s @ [t],
              sleeping_list := cut_at t (sleeping_list s),
              mem := (mem s)(t := (mem s t)\<lparr>status := THREAD_READY\<rparr>)\<rparr>)"
  by (simp add: thread_unblock_def thread_unblock_states_ok)

lemma thread_unblock_not_blocked:
  "is_thread t s \<Longrightarrow> status (mem s t) \<noteq> THREAD_BLOCKED \<Longrightarrow>
     thread_unblock t s = Inl Unblock_status"
  by (simp add: thread_unblock_def thread_unblock_states_def intr_defs)

lemma thread_unblock_not_thread:
  "\<not> is_thread t s \<Longrightarrow> thread_unblock t s = Inl Unblock_is_thread"
  by (simp add: thread_unblock_def thread_unblock_states_def)

lemma thread_unblock_Inr:
  "thread_unblock t s = Inr s' \<Longrightarrow> is_thread t s \<and> status (mem s t) = THREAD_BLOCKED"
  by (cases "is_thread t s"; cases "status (mem s t) = THREAD_BLOCKED")
    (simp_all add: thread_unblock_not_blocked thread_unblock_not_thread)

lemma schedule_frees:
  assumes "schedule s = Inr s'"
  shows "freed_pages s' = freed_pages s @
           (if running_thread s' \<noteq> running_thread s \<and> running_thread s \<noteq> NULL
               \<and> status (mem s (running_thread s)) = THREAD_DYING
               \<and> running_thread s \<noteq> initial_thread s
            then [running_thread s] else [])"
  using assms
  by (auto simp: schedule_eq dispatched_def running_thread_def Let_def split: if_splits)

lemma thread_exit_ok:
  assumes c: "thread_current s = Inr cur" and i: "\<not> intr_context s"
    and n: "is_thread (next_of s) s" and d: "next_of s \<noteq> cur"
  shows "thread_exit s =
     Inr (dispatched (thread_upd cur (\<lambda>th. th\<lparr>status := THREAD_DYING\<rparr>)
            (s\<lparr>intr_level := INTR_OFF, all_list := remove1 cur (all_list s)\<rparr>)))"
proof -
  let ?s1 = "s\<lparr>intr_level := INTR_OFF\<rparr>"
  let ?s2 = "s\<lparr>intr_level := INTR_OFF, all_list := remove1 cur (all_list s)\<rparr>"
  let ?s3 = "thread_upd cur (\<lambda>th. th\<lparr>status := THREAD_DYING\<rparr>) ?s2"
  have c1: "thread_current ?s1 = Inr cur" and c2: "thread_current ?s2 = Inr cur"
    using c by (simp_all add: thread_current_frame)
  have nx: "next_of ?s3 = next_of s"
    by (simp add: next_of_def next_thread_to_run_def thread_upd_def split: list.splits)
  have cur: "running_thread s = cur"
    using c by (simp add: thread_current_Inr)
  have st: "status (mem ?s3 (running_thread ?s3)) = THREAD_DYING"
    "intr_level ?s3 = INTR_OFF"
    using cur by (simp_all add: thread_upd_def running_thread_def)
  have it: "is_thread (next_of s) ?s3"
    using n by (auto simp: thread_upd_def is_thread_def)
  have sch: "schedule ?s3 = Inr (dispatched ?s3)"
    by (simp add: schedule_eq nx st it)
  have r: "running_thread (dispatched ?s3) = next_of s"
    by (simp add: dispatched_def running_thread_def Let_def nx)
  show ?thesis
    by (simp add: thread_exit_def intr_defs i c1 c2 sch r d)
qed

lemma thread_yield_ok:
  assumes c: "thread_current s = Inr cur" and i: "\<not> intr_context s"
    and n: "is_thread (case ready_list s of [] \<Rightarrow> cur | x # _ \<Rightarrow> x) s"
  shows "\<exists>s'. thread_yield s = Inr s'
           \<and> running_thread s' = (case ready_list s of [] \<Rightarrow> cur | x # _ \<Rightarrow> x)"
proof -
  define s3 where "s3 = thread_upd cur (\<lambda>th. th\<lparr>status := THREAD_READY\<rparr>)
     (if cur \<noteq> idle_thread s
      then s\<lparr>intr_level := INTR_OFF, ready_list := ready_list s @ [cur]\<rparr>
      else s\<lparr>intr_level := INTR_OFF\<rparr>)"
  have y: "thread_yield s =
     (case schedule s3 of Inl e \<Rightarrow> Inl e | Inr s4 \<Rightarrow> Inr (resume cur (intr_level s) s4))"
    by (simp add: thread_yield_def c i intr_defs s3_def)
  have cur: "running_thread s = cur"
    using c by (auto simp: thread_current_Inr)
  have mg: "magic (mem s3 x) = magic (mem s x)" for x
    by (simp add: s3_def thread_upd_def)
  have nx: "next_of s3 = (case ready_list s of [] \<Rightarrow> cur | x # _ \<Rightarrow> x)"
    by (simp add: s3_def next_of_def next_thread_to_run_def thread_upd_def split: list.splits)
  have nt: "is_thread (next_of s3) s3"
    using n unfolding nx is_thread_def mg .
  have st: "status (mem s3 (running_thread s3)) \<noteq> THREAD_RUNNING"
    "intr_level s3 = INTR_OFF"
    using cur by (simp_all add: s3_def thread_upd_def running_thread_def)
  have sch: "schedule s3 = Inr (dispatched s3)"
    using nt st by (simp add: schedule_eq)
  have "running_thread (resume cur (intr_level s) (dispatched s3)) = next_of s3"
    by (simp add: resume_def intr_defs dispatched_def running_thread_def Let_def)
  then show ?thesis
    by (simp add: y sch nx)
qed

subsection \<open>Thread creation without a page\<close>

text \<open>
  C5. When \<^verbatim>\<open>palloc_get_page\<close> returns \<^verbatim>\<open>NULL\<close>, \<^verbatim>\<open>thread_create\<close> (called with
  a function, as it asserts) returns \<^verbatim>\<open>TID_ERROR\<close> and the kernel state is the one
  before the call: the list of all threads, the ready list, the sleeping list and the tid
  counter are unchanged, and so is everything else.
\<close>

theorem thread_create_no_page:
  "function \<noteq> NULL \<Longrightarrow>
     thread_create lay NULL nm prio function aux s = Inr (TID_ERROR, s)"
  by (simp add: thread_create_def)

theorem thread_create_no_page_witness:
  "(7::nat) \<noteq> NULL \<and>
   thread_create example_layout NULL (Some ''w'') 31 7 0 example_kernel
     = Inr (TID_ERROR, example_kernel)"
  using thread_create_no_page [of 7 example_layout "Some ''w''" 31 0 example_kernel]
  by (simp add: NULL_def)

subsection \<open>Counting the sleepers\<close>

text \<open>
  C4. \<^verbatim>\<open>threads_sleeping\<close> should leave the interrupt level as it found it. With an
  empty sleeping list and interrupts on, it returns 0 through the early return, which
  skips \<^verbatim>\<open>intr_set_level (old_level)\<close>: interrupts stay off.
\<close>

theorem threads_sleeping_leaves_interrupts_off:
  "intr_level quiet_kernel = INTR_ON \<and>
   threads_sleeping quiet_kernel = (0, quiet_kernel\<lparr>intr_level := INTR_OFF\<rparr>)"
  by (simp add: threads_sleeping_def intr_defs example_defs constant_defs)

subsection \<open>Unblocking\<close>




subsection \<open>The timer tick\<close>

text \<open>
  C9. A call of \<^verbatim>\<open>thread_tick\<close> that passes the checks of \<^verbatim>\<open>thread_current\<close> adds
  one to exactly one of \<^verbatim>\<open>idle_ticks\<close>, \<^verbatim>\<open>user_ticks\<close> and \<^verbatim>\<open>kernel_ticks\<close>:
  the first for the idle thread, the second for a thread with a page directory (in a
  build with user programs), the third otherwise. It adds one to \<^verbatim>\<open>thread_ticks\<close>
  and sets the yield-on-return flag if and only if the new count is at least
  \<^verbatim>\<open>TIME_SLICE\<close>. It does not schedule: the running thread, the lists, the threads
  and the interrupt level are as before.
\<close>

theorem thread_tick_spec:
  assumes "thread_current s = Inr t"
  shows "\<exists>s'. thread_tick userprog s = Inr s'
    \<and> (t = idle_thread s \<longrightarrow>
          idle_ticks s' = idle_ticks s + 1 \<and> user_ticks s' = user_ticks s
          \<and> kernel_ticks s' = kernel_ticks s)
    \<and> (t \<noteq> idle_thread s \<and> userprog \<and> pagedir (mem s t) \<noteq> NULL \<longrightarrow>
          idle_ticks s' = idle_ticks s \<and> user_ticks s' = user_ticks s + 1
          \<and> kernel_ticks s' = kernel_ticks s)
    \<and> (t \<noteq> idle_thread s \<and> \<not> (userprog \<and> pagedir (mem s t) \<noteq> NULL) \<longrightarrow>
          idle_ticks s' = idle_ticks s \<and> user_ticks s' = user_ticks s
          \<and> kernel_ticks s' = kernel_ticks s + 1)
    \<and> thread_ticks s' = thread_ticks s + 1
    \<and> yield_on_return s' = (yield_on_return s \<or> TIME_SLICE \<le> thread_ticks s + 1)
    \<and> running_thread s' = running_thread s \<and> ready_list s' = ready_list s
    \<and> sleeping_list s' = sleeping_list s \<and> mem s' = mem s
    \<and> intr_level s' = intr_level s"
  using assms
  by (auto simp: thread_tick_def intr_defs running_thread_def Let_def)

theorem thread_tick_spec_witness:
  "thread_current example_kernel = Inr 1
   \<and> (\<exists>s'. thread_tick False example_kernel = Inr s' \<and> idle_ticks s' = 0
          \<and> user_ticks s' = 0 \<and> kernel_ticks s' = 1 \<and> thread_ticks s' = 1
          \<and> yield_on_return s' = False)
   \<and> thread_current user_kernel = Inr 1
   \<and> (\<exists>s'. thread_tick True user_kernel = Inr s' \<and> idle_ticks s' = 0
          \<and> user_ticks s' = 1 \<and> kernel_ticks s' = 0 \<and> thread_ticks s' = 4
          \<and> yield_on_return s' = True)
   \<and> thread_current idling_kernel = Inr 2
   \<and> (\<exists>s'. thread_tick True idling_kernel = Inr s' \<and> idle_ticks s' = 1
          \<and> user_ticks s' = 0 \<and> kernel_ticks s' = 0 \<and> thread_ticks s' = 1
          \<and> yield_on_return s' = False)"
proof -
  have c: "thread_current example_kernel = Inr 1" "thread_current user_kernel = Inr 1"
    "thread_current idling_kernel = Inr 2"
    by (simp_all add: thread_current_def running_thread_def is_thread_def user_kernel_def
        idling_kernel_def example_defs constant_defs)
  have e: "idle_thread example_kernel = 2" "idle_ticks example_kernel = 0"
    "user_ticks example_kernel = 0" "kernel_ticks example_kernel = 0"
    "thread_ticks example_kernel = 0" "yield_on_return example_kernel = False"
    by (simp_all add: example_defs)
  have u: "idle_thread user_kernel = 2" "idle_ticks user_kernel = 0"
    "user_ticks user_kernel = 0" "kernel_ticks user_kernel = 0"
    "thread_ticks user_kernel = 3" "yield_on_return user_kernel = False"
    "pagedir (mem user_kernel (Suc 0)) \<noteq> NULL"
    by (simp_all add: user_kernel_def example_defs constant_defs)
  have i: "idle_thread idling_kernel = 2" "idle_ticks idling_kernel = 0"
    "user_ticks idling_kernel = 0" "kernel_ticks idling_kernel = 0"
    "thread_ticks idling_kernel = 0" "yield_on_return idling_kernel = False"
    by (simp_all add: idling_kernel_def example_defs)
  have "\<exists>s'. thread_tick False example_kernel = Inr s' \<and> idle_ticks s' = 0
          \<and> user_ticks s' = 0 \<and> kernel_ticks s' = 1 \<and> thread_ticks s' = 1
          \<and> yield_on_return s' = False"
    using thread_tick_spec [OF c(1), of False] by (auto simp: e TIME_SLICE_def word_le_nat_alt)
  moreover have "\<exists>s'. thread_tick True user_kernel = Inr s' \<and> idle_ticks s' = 0
          \<and> user_ticks s' = 1 \<and> kernel_ticks s' = 0 \<and> thread_ticks s' = 4
          \<and> yield_on_return s' = True"
    using thread_tick_spec [OF c(2), of True] by (auto simp: u TIME_SLICE_def word_le_nat_alt)
  moreover have "\<exists>s'. thread_tick True idling_kernel = Inr s' \<and> idle_ticks s' = 1
          \<and> user_ticks s' = 0 \<and> kernel_ticks s' = 0 \<and> thread_ticks s' = 1
          \<and> yield_on_return s' = False"
    using thread_tick_spec [OF c(3), of True] by (auto simp: i TIME_SLICE_def word_le_nat_alt)
  ultimately show ?thesis
    using c by simp
qed

subsection \<open>The wake-up time of the running thread\<close>

lemma thread_current_sleeping:
  "wakeup_time_ticks (mem s (running_thread s)) \<noteq> THREAD_NOT_SLEEPING \<Longrightarrow>
     isl (thread_current s)"
  by (simp add: thread_current_def Let_def)

text \<open>
  C10, as the claim states it for \<^verbatim>\<open>thread_sleep\<close>, fails: \<^verbatim>\<open>thread_sleep\<close> compares
  its argument with the timer before it calls \<^verbatim>\<open>thread_current\<close>, and a call for a
  tick already past returns although the running thread has a wake-up time.
\<close>

theorem thread_sleep_skips_thread_current:
  "wakeup_time_ticks (mem restless_kernel (running_thread restless_kernel)) \<noteq> THREAD_NOT_SLEEPING
   \<and> thread_sleep 5 10 restless_kernel = Inr restless_kernel"
  by (simp add: thread_sleep_def restless_kernel_def running_thread_def example_defs constant_defs)

text \<open>
  C10, amended. \<^verbatim>\<open>thread_current\<close> asserts, after the magic and the running status,
  that the wake-up time of the running thread is \<^verbatim>\<open>THREAD_NOT_SLEEPING\<close>. When it is
  not, \<^verbatim>\<open>thread_tid\<close>, \<^verbatim>\<open>thread_name\<close>, \<^verbatim>\<open>thread_yield\<close>, \<^verbatim>\<open>thread_tick\<close>,
  \<^verbatim>\<open>thread_get_priority\<close> and \<^verbatim>\<open>thread_set_priority\<close> fail an assertion, and so does
  \<^verbatim>\<open>thread_sleep\<close> unless its argument is a tick from 0 on that is already past: then
  it returns at once and changes nothing.
\<close>

theorem thread_current_wakeup_assertion:
  assumes "wakeup_time_ticks (mem s (running_thread s)) \<noteq> THREAD_NOT_SLEEPING"
  shows "isl (thread_current s)
    \<and> (is_thread (running_thread s) s \<and> status (mem s (running_thread s)) = THREAD_RUNNING
         \<longrightarrow> thread_current s = Inl Current_wakeup_time)
    \<and> isl (thread_tid s) \<and> isl (thread_name s) \<and> isl (thread_yield s)
    \<and> isl (thread_tick userprog s) \<and> isl (thread_get_priority s)
    \<and> isl (thread_set_priority new_priority s)
    \<and> (\<not> wakeup_time < now \<longrightarrow> isl (thread_sleep wakeup_time now s))
    \<and> (0 \<le> wakeup_time \<and> wakeup_time < now \<longrightarrow> thread_sleep wakeup_time now s = Inr s)"
proof -
  from thread_current_sleeping [OF assms]
  obtain e where e: "thread_current s = Inl e"
    by (cases "thread_current s") auto
  have "is_thread (running_thread s) s \<and> status (mem s (running_thread s)) = THREAD_RUNNING
         \<longrightarrow> thread_current s = Inl Current_wakeup_time"
    using assms by (simp add: thread_current_def Let_def)
  then show ?thesis
    using e
    by (simp add: thread_tid_def thread_name_def thread_yield_def thread_tick_def
        thread_get_priority_def thread_set_priority_def thread_sleep_def)
qed

theorem thread_current_wakeup_assertion_witness:
  "wakeup_time_ticks (mem restless_kernel (running_thread restless_kernel)) \<noteq> THREAD_NOT_SLEEPING
   \<and> thread_current restless_kernel = Inl Current_wakeup_time
   \<and> thread_tid restless_kernel = Inl Current_wakeup_time
   \<and> thread_name restless_kernel = Inl Current_wakeup_time
   \<and> thread_yield restless_kernel = Inl Current_wakeup_time
   \<and> thread_tick False restless_kernel = Inl Current_wakeup_time
   \<and> thread_get_priority restless_kernel = Inl Current_wakeup_time
   \<and> thread_set_priority 3 restless_kernel = Inl Current_wakeup_time
   \<and> thread_sleep 12 10 restless_kernel = Inl Current_wakeup_time
   \<and> thread_sleep 5 10 restless_kernel = Inr restless_kernel"
proof -
  have w: "wakeup_time_ticks (mem restless_kernel (running_thread restless_kernel))
             \<noteq> THREAD_NOT_SLEEPING"
    and t: "is_thread (running_thread restless_kernel) restless_kernel"
    and r: "status (mem restless_kernel (running_thread restless_kernel)) = THREAD_RUNNING"
    by (simp_all add: restless_kernel_def running_thread_def is_thread_def example_defs
        constant_defs)
  have c: "thread_current restless_kernel = Inl Current_wakeup_time"
    using thread_current_wakeup_assertion [OF w] t r by simp
  have late: "thread_sleep 5 10 restless_kernel = Inr restless_kernel"
    using thread_current_wakeup_assertion
      [OF w, where wakeup_time = 5 and now = 10] by simp
  show ?thesis
    using w c late
    by (simp add: thread_tid_def thread_name_def thread_yield_def thread_tick_def
        thread_get_priority_def thread_set_priority_def thread_sleep_def)
qed

subsection \<open>Unblock, then yield\<close>

text \<open>
  C7. The running thread, outside an interrupt, unblocks a blocked thread \<open>t\<close> and
  yields at once, with a ready list of valid ready threads. Both calls return, and the
  thread dispatched by the yield is \<open>t\<close> if and only if the ready list was empty before
  the unblock.
\<close>

theorem unblock_then_yield_fifo:
  assumes c: "thread_current s = Inr cur" and i: "\<not> intr_context s"
    and t: "is_thread t s" and b: "status (mem s t) = THREAD_BLOCKED"
    and r: "\<forall>u\<in>set (ready_list s). is_thread u s \<and> status (mem s u) = THREAD_READY"
  shows "\<exists>s1 s2. thread_unblock t s = Inr s1 \<and> thread_yield s1 = Inr s2
           \<and> (running_thread s2 = t \<longleftrightarrow> ready_list s = [])"
proof -
  define s1 where "s1 = s\<lparr>ready_list := ready_list s @ [t],
               sleeping_list := cut_at t (sleeping_list s),
               mem := (mem s)(t := (mem s t)\<lparr>status := THREAD_READY\<rparr>)\<rparr>"
  have u: "thread_unblock t s = Inr s1"
    unfolding s1_def using t b by (rule thread_unblock_ok)
  have ne: "cur \<noteq> t"
    using c b by (auto simp: thread_current_Inr)
  have c1: "thread_current s1 = Inr cur"
    using c ne by (auto simp: s1_def thread_current_Inr running_thread_def is_thread_def)
  have i1: "\<not> intr_context s1"
    using i by (simp add: s1_def)
  have rl: "(case ready_list s1 of [] \<Rightarrow> cur | x # _ \<Rightarrow> x)
              = (case ready_list s of [] \<Rightarrow> t | x # _ \<Rightarrow> x)"
    by (simp add: s1_def split: list.splits)
  have "is_thread (case ready_list s of [] \<Rightarrow> t | x # _ \<Rightarrow> x) s"
    using t r by (auto split: list.splits)
  then have n1: "is_thread (case ready_list s1 of [] \<Rightarrow> cur | x # _ \<Rightarrow> x) s1"
    unfolding rl by (auto simp: is_thread_def s1_def)
  from thread_yield_ok [OF c1 i1 n1] obtain s2
    where y: "thread_yield s1 = Inr s2"
      and ru: "running_thread s2 = (case ready_list s of [] \<Rightarrow> t | x # _ \<Rightarrow> x)"
    unfolding rl by blast
  have "running_thread s2 = t \<longleftrightarrow> ready_list s = []"
    using r b by (auto simp: ru split: list.splits)
  then show ?thesis
    using u y by blast
qed

theorem unblock_then_yield_fifo_witness:
  "thread_current quiet_kernel = Inr 1 \<and> \<not> intr_context quiet_kernel
   \<and> is_thread 6 quiet_kernel \<and> status (mem quiet_kernel 6) = THREAD_BLOCKED
   \<and> ready_list quiet_kernel = []
   \<and> (\<exists>s1 s2. thread_unblock 6 quiet_kernel = Inr s1 \<and> thread_yield s1 = Inr s2
          \<and> running_thread s2 = 6)
   \<and> thread_current example_kernel = Inr 1 \<and> \<not> intr_context example_kernel
   \<and> is_thread 6 example_kernel \<and> status (mem example_kernel 6) = THREAD_BLOCKED
   \<and> ready_list example_kernel = [5] \<and> is_thread 5 example_kernel
   \<and> status (mem example_kernel 5) = THREAD_READY
   \<and> (\<exists>s1 s2. thread_unblock 6 example_kernel = Inr s1 \<and> thread_yield s1 = Inr s2
          \<and> running_thread s2 \<noteq> 6)"
proof -
  have q: "thread_current quiet_kernel = Inr 1" "\<not> intr_context quiet_kernel"
    "is_thread 6 quiet_kernel" "status (mem quiet_kernel 6) = THREAD_BLOCKED"
    "ready_list quiet_kernel = []"
    by (simp_all add: thread_current_def running_thread_def is_thread_def example_defs
        constant_defs)
  have e: "thread_current example_kernel = Inr 1" "\<not> intr_context example_kernel"
    "is_thread 6 example_kernel" "status (mem example_kernel 6) = THREAD_BLOCKED"
    "ready_list example_kernel = [5]" "is_thread 5 example_kernel"
    "status (mem example_kernel 5) = THREAD_READY"
    by (simp_all add: thread_current_def running_thread_def is_thread_def example_defs
        constant_defs)
  have "\<exists>s1 s2. thread_unblock 6 quiet_kernel = Inr s1 \<and> thread_yield s1 = Inr s2
          \<and> running_thread s2 = 6"
    using unblock_then_yield_fifo [OF q(1,2,3,4)] q(5) by simp
  moreover have "\<exists>s1 s2. thread_unblock 6 example_kernel = Inr s1
          \<and> thread_yield s1 = Inr s2 \<and> running_thread s2 \<noteq> 6"
    using unblock_then_yield_fifo [OF e(1,2,3,4)] e(5,6,7) by simp
  ultimately show ?thesis
    using q e by blast
qed

subsection \<open>The sleeping queue\<close>

lemma wake_of_frame:
  "wake_of (s\<lparr>sleeping_list := sl\<rparr>) = wake_of s"
  "wake_of (s\<lparr>sleeping_list_min_wakeup_time_ticks := m\<rparr>) = wake_of s"
  "wake_of (s\<lparr>ready_list := rl\<rparr>) = wake_of s"
  "wake_of (s\<lparr>intr_level := l\<rparr>) = wake_of s"
  "wake_of (s\<lparr>esp_page := p\<rparr>) = wake_of s"
  "wake_of (s\<lparr>thread_ticks := k\<rparr>) = wake_of s"
  "wake_of (s\<lparr>freed_pages := fp\<rparr>) = wake_of s"
  by (simp_all add: wake_of_def fun_eq_iff)

lemma set_list_insert_ordered:
  "set (list_insert_ordered xs e f) = insert e (set xs)"
  by (induction xs) auto

lemma sorted_list_insert_ordered:
  "sorted (map w xs) \<Longrightarrow> sorted (map w (list_insert_ordered xs e (\<lambda>a b. w a < w b)))"
  by (induction xs) (auto simp: set_list_insert_ordered)

lemma distinct_list_insert_ordered:
  "distinct xs \<Longrightarrow> e \<notin> set xs \<Longrightarrow> distinct (list_insert_ordered xs e f)"
  by (induction xs) (auto simp: set_list_insert_ordered)

lemma sleeping_queue_insert_ordered_ok:
  assumes ok: "sleeping_queue_ok s" and t: "t \<notin> set (sleeping_list s)"
    and r: "sleeping_queue_insert_ordered t s = Inr s'"
  shows "sleeping_queue_ok s' \<and> set (sleeping_list s') = insert t (set (sleeping_list s))
         \<and> mem s' = mem s \<and> ready_list s' = ready_list s \<and> esp_page s' = esp_page s
         \<and> intr_level s' = intr_level s \<and> idle_thread s' = idle_thread s"
proof -
  have pos: "0 < wake_of s t"
    using r by (auto simp: sleeping_queue_insert_ordered_def wake_of_def split: if_splits)
  have lt: "wakeup_time_ticks_less_than s = (\<lambda>a b. wake_of s a < wake_of s b)"
    by (intro ext) (simp add: wakeup_time_ticks_less_than_def wake_of_def)
  show ?thesis
  proof (cases "sleeping_list_min_wakeup_time_ticks s = SLEEPING_QUEUE_EMPTY
      \<or> wake_of s t \<le> sleeping_list_min_wakeup_time_ticks s")
    case True
    then have s': "s' = s\<lparr>sleeping_list := t # sleeping_list s,
                  sleeping_list_min_wakeup_time_ticks := wake_of s t\<rparr>"
      using r by (auto simp: sleeping_queue_insert_ordered_def wake_of_def split: if_splits)
    have "\<forall>x\<in>set (sleeping_list s). wake_of s t \<le> wake_of s x"
      using ok True
      by (cases "sleeping_list s") (auto simp: sleeping_queue_ok_def)
    then show ?thesis
      using ok t pos
      by (auto simp: s' sleeping_queue_ok_def wake_of_frame SLEEPING_QUEUE_EMPTY_def)
  next
    case False
    then have s': "s' = s\<lparr>sleeping_list :=
        list_insert_ordered (sleeping_list s) t (\<lambda>a b. wake_of s a < wake_of s b)\<rparr>"
      using r
      by (auto simp: sleeping_queue_insert_ordered_def wake_of_def lt split: if_splits)
    from False ok obtain x xs where q: "sleeping_list s = x # xs"
      and m: "sleeping_list_min_wakeup_time_ticks s = wake_of s x"
      by (cases "sleeping_list s") (auto simp: sleeping_queue_ok_def)
    have hd: "list_insert_ordered (sleeping_list s) t (\<lambda>a b. wake_of s a < wake_of s b)
         = x # list_insert_ordered xs t (\<lambda>a b. wake_of s a < wake_of s b)"
      using False q m by simp
    have "sorted (map (wake_of s)
        (list_insert_ordered (sleeping_list s) t (\<lambda>a b. wake_of s a < wake_of s b)))"
      using ok by (simp add: sleeping_queue_ok_def sorted_list_insert_ordered)
    moreover have "distinct
        (list_insert_ordered (sleeping_list s) t (\<lambda>a b. wake_of s a < wake_of s b))"
      using ok t by (simp add: sleeping_queue_ok_def distinct_list_insert_ordered)
    moreover have "set (list_insert_ordered (sleeping_list s) t
        (\<lambda>a b. wake_of s a < wake_of s b)) = insert t (set (sleeping_list s))"
      by (rule set_list_insert_ordered)
    ultimately show ?thesis
      using ok pos q m False unfolding s'
      by (simp add: sleeping_queue_ok_def wake_of_frame hd SLEEPING_QUEUE_EMPTY_def)
  qed
qed


lemma sleeping_queue_ok_cong:
  assumes "sleeping_list s' = sleeping_list s"
    and "sleeping_list_min_wakeup_time_ticks s' = sleeping_list_min_wakeup_time_ticks s"
    and "\<forall>t\<in>set (sleeping_list s). wake_of s' t = wake_of s t"
  shows "sleeping_queue_ok s' = sleeping_queue_ok s"
proof -
  have m: "map (wake_of s') (sleeping_list s) = map (wake_of s) (sleeping_list s)"
    using assms(3) by simp
  have p: "(\<forall>t\<in>set (sleeping_list s). 0 < wake_of s' t)
         = (\<forall>t\<in>set (sleeping_list s). 0 < wake_of s t)"
    using assms(3) by auto
  have c: "(case sleeping_list s of [] \<Rightarrow> True
            | t # _ \<Rightarrow> sleeping_list_min_wakeup_time_ticks s = wake_of s' t)
         = (case sleeping_list s of [] \<Rightarrow> True
            | t # _ \<Rightarrow> sleeping_list_min_wakeup_time_ticks s = wake_of s t)"
    using assms(3) by (cases "sleeping_list s") auto
  show ?thesis
    unfolding sleeping_queue_ok_def assms(1,2) m p c ..
qed

lemma schedule_sleeping:
  assumes "schedule s = Inr s'"
  shows "sleeping_list s' = sleeping_list s
    \<and> sleeping_list_min_wakeup_time_ticks s' = sleeping_list_min_wakeup_time_ticks s
    \<and> wake_of s' = wake_of s"
  using assms
  by (auto simp: schedule_eq dispatched_def wake_of_def Let_def fun_eq_iff split: if_splits)

lemma thread_sleep_preserves:
  assumes ok: "sleeping_queue_ok s" and r: "thread_sleep w now s = Inr s'"
  shows "sleeping_queue_ok s'"
proof (cases "w < now")
  case True
  then show ?thesis
    using ok r by (simp add: thread_sleep_def split: if_splits)
next
  case False
  from r False obtain cur where c: "thread_current s = Inr cur"
    by (cases "thread_current s") (auto simp: thread_sleep_def split: if_splits)
  show ?thesis
  proof (cases "cur = idle_thread s")
    case True
    then have "s' = s\<lparr>intr_level := intr_level s\<rparr>"
      using r False c by (auto simp: thread_sleep_def intr_defs split: if_splits)
    then show ?thesis
      using ok by simp
  next
    case idle: False
    define s3 where "s3 = thread_upd cur (\<lambda>th. th\<lparr>wakeup_time_ticks := w\<rparr>)
       (thread_upd cur (\<lambda>th. th\<lparr>status := THREAD_BLOCKED\<rparr>) (s\<lparr>intr_level := INTR_OFF\<rparr>))"
    from r False c idle obtain s4 s5
      where i4: "sleeping_queue_insert_ordered cur s3 = Inr s4"
        and sc: "schedule s4 = Inr s5"
        and s': "s' = resume cur (intr_level s) s5"
      by (auto simp: thread_sleep_def intr_defs s3_def split: if_splits sum.splits)
    have cw: "wake_of s cur = THREAD_NOT_SLEEPING"
      using c by (auto simp: thread_current_Inr wake_of_def)
    have notin: "cur \<notin> set (sleeping_list s)"
      using ok cw by (auto simp: sleeping_queue_ok_def THREAD_NOT_SLEEPING_def)
    have "sleeping_queue_ok s3 = sleeping_queue_ok s"
      using notin
      by (intro sleeping_queue_ok_cong) (auto simp: s3_def thread_upd_def wake_of_def)
    then have ok3: "sleeping_queue_ok s3"
      using ok by simp
    have n3: "cur \<notin> set (sleeping_list s3)"
      using notin by (simp add: s3_def thread_upd_def)
    have ok4: "sleeping_queue_ok s4"
      using sleeping_queue_insert_ordered_ok [OF ok3 n3 i4] by simp
    have "sleeping_queue_ok s5 = sleeping_queue_ok s4"
      using schedule_sleeping [OF sc] by (intro sleeping_queue_ok_cong) simp_all
    moreover have "sleeping_queue_ok s' = sleeping_queue_ok s5"
      unfolding s' by (intro sleeping_queue_ok_cong)
        (simp_all add: resume_def intr_defs wake_of_frame)
    ultimately show ?thesis
      using ok4 by simp
  qed
qed

lemma drained_nothing:
  assumes "takeWhile (\<lambda>t. wake_of s t \<le> now) (sleeping_list s) = []"
  shows "drained m now s =
     s\<lparr>sleeping_list_min_wakeup_time_ticks :=
         (case sleeping_list s of [] \<Rightarrow> m | t # _ \<Rightarrow> wake_of s t)\<rparr>"
proof -
  have "dropWhile (\<lambda>t. wake_of s t \<le> now) (sleeping_list s) = sleeping_list s"
    using assms takeWhile_dropWhile_id [of "\<lambda>t. wake_of s t \<le> now" "sleeping_list s"]
    by simp
  then show ?thesis
    using assms by (simp add: drained_def)
qed

lemma wakeup_loop_Nil:
  "sleeping_list s = [] \<Longrightarrow> wakeup_loop now s = Inr s"
  by (simp add: wakeup_loop.simps)

lemma wakeup_loop_Cons:
  "sleeping_list s = h # rest \<Longrightarrow>
   wakeup_loop now s =
     (if h = NULL then Inl Wakeup_front_null
      else if status (mem s h) \<noteq> THREAD_BLOCKED then Inl Wakeup_front_status
      else if \<not> 0 < wake_of s h then Inl Wakeup_front_wakeup_time
      else if wake_of s h > now
      then Inr (s\<lparr>sleeping_list_min_wakeup_time_ticks := wake_of s h\<rparr>)
      else if \<not> is_thread h s then Inl Unblock_is_thread
      else wakeup_loop now
        (s\<lparr>ready_list := ready_list s @ [h], sleeping_list := cut_at h rest,
           mem := (mem s)(h := (mem s h)\<lparr>wakeup_time_ticks := THREAD_NOT_SLEEPING,
                                            status := THREAD_READY\<rparr>)\<rparr>))"
  by (subst wakeup_loop.simps)
    (simp add: wake_of_def thread_unblock_def thread_unblock_states_def
      ready_list_push_back_def intr_defs thread_upd_def is_thread_def Let_def)

lemma wakeup_loop_Cons_distinct:
  assumes "sleeping_list s = h # rest" and "h \<notin> set rest"
  shows "wakeup_loop now s =
     (if h = NULL then Inl Wakeup_front_null
      else if status (mem s h) \<noteq> THREAD_BLOCKED then Inl Wakeup_front_status
      else if \<not> 0 < wake_of s h then Inl Wakeup_front_wakeup_time
      else if wake_of s h > now
      then Inr (s\<lparr>sleeping_list_min_wakeup_time_ticks := wake_of s h\<rparr>)
      else if \<not> is_thread h s then Inl Unblock_is_thread
      else wakeup_loop now
        (s\<lparr>sleeping_list := rest, ready_list := ready_list s @ [h],
           mem := (mem s)(h := (mem s h)\<lparr>wakeup_time_ticks := THREAD_NOT_SLEEPING,
                                            status := THREAD_READY\<rparr>)\<rparr>))"
proof -
  have "s\<lparr>ready_list := ready_list s @ [h], sleeping_list := cut_at h rest,
           mem := (mem s)(h := (mem s h)\<lparr>wakeup_time_ticks := THREAD_NOT_SLEEPING,
                                            status := THREAD_READY\<rparr>)\<rparr>
      = s\<lparr>sleeping_list := rest, ready_list := ready_list s @ [h],
           mem := (mem s)(h := (mem s h)\<lparr>wakeup_time_ticks := THREAD_NOT_SLEEPING,
                                            status := THREAD_READY\<rparr>)\<rparr>"
    using assms(2) by (cases s) (simp add: cut_at_notin)
  then show ?thesis
    using wakeup_loop_Cons [OF assms(1), of now] by simp
qed

lemma wakeup_loop_result:
  assumes "sleeping_list s = q" and "distinct q" and "wakeup_loop now s = Inr s'"
  shows "s' = drained (sleeping_list_min_wakeup_time_ticks s) now s"
  using assms
proof (induction q arbitrary: s)
  case Nil
  then show ?case
    by (simp add: wakeup_loop_Nil drained_nothing)
next
  case (Cons h rest)
  show ?case
  proof (cases "wake_of s h \<le> now")
    case False
    then have "s' = s\<lparr>sleeping_list_min_wakeup_time_ticks := wake_of s h\<rparr>"
      using Cons.prems by (auto simp: wakeup_loop_Cons_distinct split: if_splits)
    then show ?thesis
      using False Cons.prems(1) by (simp add: drained_nothing)
  next
    case True
    define s3 where "s3 = s\<lparr>sleeping_list := rest, ready_list := ready_list s @ [h],
       mem := (mem s)(h := (mem s h)\<lparr>wakeup_time_ticks := THREAD_NOT_SLEEPING,
                                        status := THREAD_READY\<rparr>)\<rparr>"
    define tw where "tw = takeWhile (\<lambda>t. wake_of s t \<le> now) rest"
    define dw where "dw = dropWhile (\<lambda>t. wake_of s t \<le> now) rest"
    have l: "wakeup_loop now s3 = Inr s'"
      using Cons.prems True by (auto simp: wakeup_loop_Cons_distinct s3_def split: if_splits)
    have r: "s' = drained (sleeping_list_min_wakeup_time_ticks s) now s3"
      using Cons.IH [of s3] Cons.prems(2) l by (simp add: s3_def)
    have w: "\<forall>t\<in>set rest. wake_of s3 t = wake_of s t"
      using Cons.prems(2) by (auto simp: s3_def wake_of_def)
    then have tw3: "takeWhile (\<lambda>t. wake_of s3 t \<le> now) rest = tw"
      and dw3: "dropWhile (\<lambda>t. wake_of s3 t \<le> now) rest = dw"
      unfolding tw_def dw_def by (auto intro: takeWhile_cong dropWhile_cong)
    have twr: "set tw \<subseteq> set rest" and dwr: "set dw \<subseteq> set rest"
      unfolding tw_def dw_def by (auto dest: set_takeWhileD set_dropWhileD)
    have me: "(\<lambda>t. if t \<in> set tw
                  then (mem s3 t)\<lparr>wakeup_time_ticks := THREAD_NOT_SLEEPING,
                                    status := THREAD_READY\<rparr>
                  else mem s3 t)
            = (\<lambda>t. if t \<in> set (h # tw)
                  then (mem s t)\<lparr>wakeup_time_ticks := THREAD_NOT_SLEEPING,
                                   status := THREAD_READY\<rparr>
                  else mem s t)"
      using Cons.prems(2) twr by (auto simp: fun_eq_iff s3_def)
    have mi: "(case dw of [] \<Rightarrow> m | t # _ \<Rightarrow> wake_of s3 t)
            = (case dw of [] \<Rightarrow> m | t # _ \<Rightarrow> wake_of s t)" for m
      using w dwr by (cases dw) auto
    have d3: "drained m now s3 =
        s3\<lparr>sleeping_list := dw, ready_list := ready_list s3 @ tw,
           mem := (\<lambda>t. if t \<in> set (h # tw)
                  then (mem s t)\<lparr>wakeup_time_ticks := THREAD_NOT_SLEEPING,
                                   status := THREAD_READY\<rparr>
                  else mem s t),
           sleeping_list_min_wakeup_time_ticks :=
             (case dw of [] \<Rightarrow> m | t # _ \<Rightarrow> wake_of s t)\<rparr>" for m
      unfolding drained_def Let_def
      using tw3 dw3 me mi [of m] by (simp add: s3_def)
    have d: "drained m now s =
        s\<lparr>sleeping_list := dw, ready_list := ready_list s @ h # tw,
           mem := (\<lambda>t. if t \<in> set (h # tw)
                  then (mem s t)\<lparr>wakeup_time_ticks := THREAD_NOT_SLEEPING,
                                   status := THREAD_READY\<rparr>
                  else mem s t),
           sleeping_list_min_wakeup_time_ticks :=
             (case dw of [] \<Rightarrow> m | t # _ \<Rightarrow> wake_of s t)\<rparr>" for m
      unfolding drained_def Let_def
      using True Cons.prems(1) by (simp add: tw_def dw_def)
    show ?thesis
      unfolding r d3 d by (simp add: s3_def)
  qed
qed


lemma wakeup_loop_returns:
  assumes "sleeping_list s = q" and "distinct q"
    and "\<forall>t\<in>set q. is_thread t s \<and> status (mem s t) = THREAD_BLOCKED \<and> 0 < wake_of s t"
  shows "\<exists>s'. wakeup_loop now s = Inr s'"
  using assms
proof (induction q arbitrary: s)
  case Nil
  then show ?case
    by (simp add: wakeup_loop_Nil)
next
  case (Cons h rest)
  define s3 where "s3 = s\<lparr>sleeping_list := rest, ready_list := ready_list s @ [h],
       mem := (mem s)(h := (mem s h)\<lparr>wakeup_time_ticks := THREAD_NOT_SLEEPING,
                                        status := THREAD_READY\<rparr>)\<rparr>"
  have "\<forall>t\<in>set rest. is_thread t s3 \<and> status (mem s3 t) = THREAD_BLOCKED
          \<and> 0 < wake_of s3 t"
    using Cons.prems(2,3) by (auto simp: s3_def is_thread_def wake_of_def)
  then have "\<exists>s'. wakeup_loop now s3 = Inr s'"
    using Cons.prems(2) by (intro Cons.IH) (simp_all add: s3_def)
  then show ?case
    using Cons.prems by (auto simp: wakeup_loop_Cons_distinct s3_def is_thread_def)
qed

lemma drained_sel:
  "sleeping_list (drained m now s) = dropWhile (\<lambda>t. wake_of s t \<le> now) (sleeping_list s)"
  "ready_list (drained m now s)
     = ready_list s @ takeWhile (\<lambda>t. wake_of s t \<le> now) (sleeping_list s)"
  "mem (drained m now s) t =
     (if t \<in> set (takeWhile (\<lambda>t. wake_of s t \<le> now) (sleeping_list s))
      then (mem s t)\<lparr>wakeup_time_ticks := THREAD_NOT_SLEEPING, status := THREAD_READY\<rparr>
      else mem s t)"
  "sleeping_list_min_wakeup_time_ticks (drained m now s) =
     (case dropWhile (\<lambda>t. wake_of s t \<le> now) (sleeping_list s) of
        [] \<Rightarrow> m | t # _ \<Rightarrow> wake_of s t)"
  "intr_level (drained m now s) = intr_level s"
  "esp_page (drained m now s) = esp_page s"
  "idle_thread (drained m now s) = idle_thread s"
  "freed_pages (drained m now s) = freed_pages s"
  by (simp_all add: drained_def Let_def)

lemma drained_intr_level:
  "drained m now (s\<lparr>intr_level := l\<rparr>) = (drained m now s)\<lparr>intr_level := l\<rparr>"
  by (simp add: drained_def Let_def wake_of_frame cong: if_cong list.case_cong)

lemma drained_empty:
  "dropWhile (\<lambda>t. wake_of s t \<le> now) (sleeping_list s) = [] \<Longrightarrow>
     (drained m now s)\<lparr>sleeping_list_min_wakeup_time_ticks := m'\<rparr> = drained m' now s"
  by (simp add: drained_def Let_def del: dropWhile_eq_Nil_conv)

lemma drained_restore:
  "(drained m now s)\<lparr>intr_level := intr_level s\<rparr> = drained m now s"
  by (simp add: drained_def Let_def)

lemma drained_nonempty:
  "dropWhile (\<lambda>t. wake_of s t \<le> now) (sleeping_list s) \<noteq> [] \<Longrightarrow>
     drained m now s = drained m' now s"
  by (simp add: drained_def Let_def del: dropWhile_eq_Nil_conv split: list.splits)

lemma thread_wakeup_result:
  assumes ok: "sleeping_queue_ok s" and r: "thread_wakeup now s = Inr s'"
  shows "s' = drained SLEEPING_QUEUE_EMPTY now s"
proof (cases "sleeping_list_min_wakeup_time_ticks s = SLEEPING_QUEUE_EMPTY
              \<or> now < sleeping_list_min_wakeup_time_ticks s")
  case True
  then have s': "s' = s"
    using r by (auto simp: thread_wakeup_def split: if_splits)
  have "takeWhile (\<lambda>t. wake_of s t \<le> now) (sleeping_list s) = []"
    using ok True by (cases "sleeping_list s") (auto simp: sleeping_queue_ok_def)
  then have "drained SLEEPING_QUEUE_EMPTY now s =
     s\<lparr>sleeping_list_min_wakeup_time_ticks :=
         (case sleeping_list s of [] \<Rightarrow> SLEEPING_QUEUE_EMPTY | t # _ \<Rightarrow> wake_of s t)\<rparr>"
    by (rule drained_nothing)
  moreover have "(case sleeping_list s of [] \<Rightarrow> SLEEPING_QUEUE_EMPTY | t # _ \<Rightarrow> wake_of s t)
      = sleeping_list_min_wakeup_time_ticks s"
    using ok by (cases "sleeping_list s") (auto simp: sleeping_queue_ok_def)
  ultimately show ?thesis
    using s' by simp
next
  case False
  define s1 where "s1 = s\<lparr>intr_level := INTR_OFF\<rparr>"
  from r False obtain s2 where l: "wakeup_loop now s1 = Inr s2"
    and s': "s' = (if sleeping_list s2 = []
                   then s2\<lparr>sleeping_list_min_wakeup_time_ticks := SLEEPING_QUEUE_EMPTY\<rparr>
                   else s2)\<lparr>intr_level := intr_level s\<rparr>"
    by (auto simp: thread_wakeup_def intr_defs s1_def split: if_splits sum.splits)
  have "distinct (sleeping_list s1)"
    using ok by (simp add: s1_def sleeping_queue_ok_def)
  then have s2: "s2 = drained (sleeping_list_min_wakeup_time_ticks s) now s1"
    using wakeup_loop_result [OF refl _ l] by (simp add: s1_def)
  have s2': "s2 = (drained (sleeping_list_min_wakeup_time_ticks s) now s)\<lparr>intr_level := INTR_OFF\<rparr>"
    unfolding s2 s1_def by (rule drained_intr_level)
  let ?D = "drained (sleeping_list_min_wakeup_time_ticks s) now s"
  show ?thesis
  proof (cases "dropWhile (\<lambda>t. wake_of s t \<le> now) (sleeping_list s) = []")
    case True
    then have "sleeping_list s2 = []"
      by (simp add: s2' drained_sel del: dropWhile_eq_Nil_conv)
    then have "s' = (?D\<lparr>sleeping_list_min_wakeup_time_ticks := SLEEPING_QUEUE_EMPTY\<rparr>)
                      \<lparr>intr_level := intr_level s\<rparr>"
      by (simp add: s' s2')
    also have "\<dots> = (drained SLEEPING_QUEUE_EMPTY now s)\<lparr>intr_level := intr_level s\<rparr>"
      by (simp only: drained_empty [OF True])
    finally show ?thesis
      by (simp only: drained_restore)
  next
    case False
    then have "sleeping_list s2 \<noteq> []"
      by (simp add: s2' drained_sel del: dropWhile_eq_Nil_conv)
    then have "s' = ?D\<lparr>intr_level := intr_level s\<rparr>"
      by (simp add: s' s2')
    also have "\<dots> = ?D"
      by (simp only: drained_restore)
    finally show ?thesis
      using drained_nonempty [OF False] by simp
  qed
qed

lemma thread_wakeup_returns:
  assumes ok: "sleeping_queue_ok s"
    and v: "\<forall>t\<in>set (sleeping_list s). is_thread t s \<and> status (mem s t) = THREAD_BLOCKED"
  shows "\<exists>s'. thread_wakeup now s = Inr s'"
proof -
  define s1 where "s1 = s\<lparr>intr_level := INTR_OFF\<rparr>"
  have "\<forall>t\<in>set (sleeping_list s1). is_thread t s1 \<and> status (mem s1 t) = THREAD_BLOCKED
          \<and> 0 < wake_of s1 t"
    using ok v by (auto simp: s1_def sleeping_queue_ok_def is_thread_def wake_of_def)
  moreover have "distinct (sleeping_list s1)"
    using ok by (simp add: s1_def sleeping_queue_ok_def)
  ultimately obtain s2 where "wakeup_loop now s1 = Inr s2"
    using wakeup_loop_returns [OF refl] by blast
  moreover have "sleeping_list_min_wakeup_time_ticks s \<noteq> SLEEPING_QUEUE_EMPTY
      \<or> sleeping_list s = []"
    using ok by (auto simp: sleeping_queue_ok_def)
  ultimately show ?thesis
    by (auto simp: thread_wakeup_def intr_defs s1_def)
qed


lemma sorted_takeWhile_filter:
  "sorted (map f xs) \<Longrightarrow>
     takeWhile (\<lambda>x. f x \<le> (n::int)) xs = filter (\<lambda>x. f x \<le> n) xs"
proof (induction xs)
  case Nil
  then show ?case by simp
next
  case (Cons a xs)
  show ?case
  proof (cases "f a \<le> n")
    case True
    then show ?thesis
      using Cons by simp
  next
    case False
    then have "filter (\<lambda>x. f x \<le> n) xs = []"
      using Cons.prems by (auto simp: filter_empty_conv)
    then show ?thesis
      using False by simp
  qed
qed

lemma wake_of_drained:
  "wake_of (drained m now s) t =
     (if t \<in> set (takeWhile (\<lambda>t. wake_of s t \<le> now) (sleeping_list s))
      then THREAD_NOT_SLEEPING else wake_of s t)"
  by (simp add: wake_of_def drained_sel)

lemma drained_facts:
  fixes now :: int and s :: kernel
  assumes ok: "sleeping_queue_ok s"
  defines "due \<equiv> takeWhile (\<lambda>t. wake_of s t \<le> now) (sleeping_list s)"
    and "rest \<equiv> dropWhile (\<lambda>t. wake_of s t \<le> now) (sleeping_list s)"
  shows "\<forall>t\<in>set rest. wake_of (drained m now s) t = wake_of s t \<and> now < wake_of s t"
    and "\<forall>t\<in>set due. wake_of (drained m now s) t = THREAD_NOT_SLEEPING
            \<and> status (mem (drained m now s) t) = THREAD_READY"
    and "sorted (map (wake_of s) due)" and "sorted (map (wake_of s) rest)"
    and "distinct rest" and "set rest \<subseteq> set (sleeping_list s)"
    and "set due \<inter> set rest = {}"
proof -
  have q: "sleeping_list s = due @ rest"
    by (simp add: due_def rest_def)
  have so: "sorted (map (wake_of s) (due @ rest))" and di: "distinct (due @ rest)"
    using ok unfolding q [symmetric] by (simp_all add: sleeping_queue_ok_def)
  show dj: "set due \<inter> set rest = {}" and "distinct rest"
    using di by auto
  show "sorted (map (wake_of s) due)" and sr: "sorted (map (wake_of s) rest)"
    using so by (simp_all add: sorted_append)
  show "set rest \<subseteq> set (sleeping_list s)"
    by (simp add: q)
  have hd: "rest \<noteq> [] \<Longrightarrow> now < wake_of s (hd rest)"
    using hd_dropWhile [of "\<lambda>t. wake_of s t \<le> now" "sleeping_list s"]
    by (simp add: rest_def del: dropWhile_eq_Nil_conv)
  have "\<forall>t\<in>set rest. now < wake_of s t"
  proof (cases rest)
    case Nil
    then show ?thesis by simp
  next
    case (Cons x xs)
    then show ?thesis
      using hd sr by fastforce
  qed
  then show "\<forall>t\<in>set rest. wake_of (drained m now s) t = wake_of s t \<and> now < wake_of s t"
    using dj by (auto simp: wake_of_drained due_def [symmetric])
  show "\<forall>t\<in>set due. wake_of (drained m now s) t = THREAD_NOT_SLEEPING
            \<and> status (mem (drained m now s) t) = THREAD_READY"
    by (simp add: wake_of_drained drained_sel due_def [symmetric])
qed

lemma thread_wakeup_preserves:
  assumes ok: "sleeping_queue_ok s" and r: "thread_wakeup now s = Inr s'"
  shows "sleeping_queue_ok s'"
proof -
  define rest where "rest = dropWhile (\<lambda>t. wake_of s t \<le> now) (sleeping_list s)"
  have s': "s' = drained SLEEPING_QUEUE_EMPTY now s"
    using ok r by (rule thread_wakeup_result)
  note f1 = drained_facts(1) [OF ok, where now = now and m = SLEEPING_QUEUE_EMPTY,
      folded rest_def s']
    and f4 = drained_facts(4) [OF ok, where now = now, folded rest_def]
    and f5 = drained_facts(5) [OF ok, where now = now, folded rest_def]
    and f6 = drained_facts(6) [OF ok, where now = now, folded rest_def]
  have sl: "sleeping_list s' = rest"
    and mi: "sleeping_list_min_wakeup_time_ticks s' =
      (case rest of [] \<Rightarrow> SLEEPING_QUEUE_EMPTY | t # _ \<Rightarrow> wake_of s t)"
    by (simp_all add: s' drained_sel rest_def)
  have w: "map (wake_of s') rest = map (wake_of s) rest"
    using f1 by simp
  have pos: "\<forall>t\<in>set rest. 0 < wake_of s t"
    using ok f6 by (auto simp: sleeping_queue_ok_def)
  show ?thesis
    unfolding sleeping_queue_ok_def sl mi w
    using f1 f4 f5 pos
    by (cases rest) (auto simp: SLEEPING_QUEUE_EMPTY_def)
qed

lemma thread_init_establishes:
  assumes "thread_init s = Inr s'"
  shows "sleeping_queue_ok s'"
  using assms
  by (auto simp: thread_init_def init_thread_def allocate_tid_def intr_defs thread_upd_def
      sleeping_queue_ok_def Let_def split: if_splits)


lemma sorted_dropWhile_filter:
  "sorted (map f xs) \<Longrightarrow>
     dropWhile (\<lambda>x. f x \<le> (n::int)) xs = filter (\<lambda>x. n < f x) xs"
proof (induction xs)
  case Nil
  then show ?case by simp
next
  case (Cons a xs)
  show ?case
  proof (cases "f a \<le> n")
    case True
    then show ?thesis
      using Cons by simp
  next
    case False
    then have "filter (\<lambda>x. n < f x) xs = xs"
      using Cons.prems by (auto simp: filter_id_conv)
    then show ?thesis
      using False by simp
  qed
qed

lemma sleeping_queue_insert_ordered_returns:
  assumes "\<not> intr_context s" and "intr_level s = INTR_OFF" and "t \<noteq> NULL"
    and "status (mem s t) = THREAD_BLOCKED" and "0 < wake_of s t"
    and "sleeping_list_min_wakeup_time_ticks s \<noteq> SLEEPING_QUEUE_EMPTY \<or> sleeping_list s = []"
  shows "\<exists>q m. sleeping_queue_insert_ordered t s =
           Inr (s\<lparr>sleeping_list := q, sleeping_list_min_wakeup_time_ticks := m\<rparr>)
         \<and> set q = insert t (set (sleeping_list s))"
proof (cases "sleeping_list_min_wakeup_time_ticks s = SLEEPING_QUEUE_EMPTY
      \<or> wake_of s t \<le> sleeping_list_min_wakeup_time_ticks s")
  case True
  then have "sleeping_queue_insert_ordered t s =
      Inr (s\<lparr>sleeping_list := t # sleeping_list s,
             sleeping_list_min_wakeup_time_ticks := wake_of s t\<rparr>)"
    using assms by (auto simp: sleeping_queue_insert_ordered_def wake_of_def)
  then show ?thesis
    by auto
next
  case False
  let ?q = "list_insert_ordered (sleeping_list s) t (wakeup_time_ticks_less_than s)"
  have "sleeping_queue_insert_ordered t s = Inr (s\<lparr>sleeping_list := ?q\<rparr>)"
    using False assms by (auto simp: sleeping_queue_insert_ordered_def wake_of_def)
  then have "sleeping_queue_insert_ordered t s =
      Inr (s\<lparr>sleeping_list := ?q,
             sleeping_list_min_wakeup_time_ticks := sleeping_list_min_wakeup_time_ticks s\<rparr>)"
    by simp
  moreover have "set ?q = insert t (set (sleeping_list s))"
    by (rule set_list_insert_ordered)
  ultimately show ?thesis
    by blast
qed

lemma thread_sleep_returns:
  assumes c: "thread_current s = Inr cur" and i: "\<not> intr_context s"
    and w: "0 < w" "now \<le> w" and ni: "cur \<noteq> idle_thread s"
    and ca: "sleeping_list_min_wakeup_time_ticks s \<noteq> SLEEPING_QUEUE_EMPTY
             \<or> sleeping_list s = []"
    and n: "is_thread (next_of s) s"
  shows "\<exists>s'. thread_sleep w now s = Inr s'
           \<and> set (sleeping_list s') = insert cur (set (sleeping_list s))
           \<and> wake_of s' cur = w \<and> running_thread s' = next_of s"
proof -
  define s3 where "s3 = thread_upd cur (\<lambda>th. th\<lparr>wakeup_time_ticks := w\<rparr>)
     (thread_upd cur (\<lambda>th. th\<lparr>status := THREAD_BLOCKED\<rparr>) (s\<lparr>intr_level := INTR_OFF\<rparr>))"
  have cur: "running_thread s = cur" "cur \<noteq> NULL"
    using c by (auto simp: thread_current_Inr is_thread_def)
  have p3: "\<not> intr_context s3" "intr_level s3 = INTR_OFF"
    "status (mem s3 cur) = THREAD_BLOCKED" "0 < wake_of s3 cur"
    "sleeping_list_min_wakeup_time_ticks s3 \<noteq> SLEEPING_QUEUE_EMPTY \<or> sleeping_list s3 = []"
    using i w ca by (simp_all add: s3_def thread_upd_def wake_of_def)
  from sleeping_queue_insert_ordered_returns [OF p3(1,2) cur(2) p3(3,4,5)]
  obtain q m where
    i4: "sleeping_queue_insert_ordered cur s3 =
           Inr (s3\<lparr>sleeping_list := q, sleeping_list_min_wakeup_time_ticks := m\<rparr>)"
    and q: "set q = insert cur (set (sleeping_list s3))"
    by blast
  define s4 where "s4 = s3\<lparr>sleeping_list := q, sleeping_list_min_wakeup_time_ticks := m\<rparr>"
  have nx: "next_of s4 = next_of s"
    by (simp add: s4_def s3_def next_of_def next_thread_to_run_def thread_upd_def
        split: list.splits)
  have p4: "intr_level s4 = INTR_OFF" "status (mem s4 (running_thread s4)) \<noteq> THREAD_RUNNING"
    "is_thread (next_of s) s4"
    using cur n by (auto simp: s4_def s3_def thread_upd_def running_thread_def is_thread_def)
  have sch: "schedule s4 = Inr (dispatched s4)"
    using p4 by (simp add: schedule_eq nx)
  have y: "thread_sleep w now s = Inr (resume cur (intr_level s) (dispatched s4))"
    using w i ni i4 sch
    by (simp add: thread_sleep_def c intr_defs s3_def [symmetric] s4_def [symmetric])
  have "sleeping_list (resume cur (intr_level s) (dispatched s4)) = q"
    by (simp add: resume_def intr_defs dispatched_def Let_def s4_def)
  moreover have "set (sleeping_list s3) = set (sleeping_list s)"
    by (simp add: s3_def thread_upd_def)
  moreover have "running_thread (resume cur (intr_level s) (dispatched s4)) = next_of s"
    using nx by (simp add: resume_def intr_defs dispatched_def Let_def running_thread_def)
  moreover have "wake_of (resume cur (intr_level s) (dispatched s4)) cur = w"
    by (simp add: resume_def intr_defs dispatched_def Let_def wake_of_def s4_def s3_def
        thread_upd_def)
  ultimately show ?thesis
    using y q by auto
qed

lemma thread_sleep_zero:
  assumes "thread_current s = Inr cur" and "\<not> intr_context s" and "cur \<noteq> idle_thread s"
  shows "thread_sleep 0 0 s = Inl Insert_wakeup_time"
proof -
  have "cur \<noteq> NULL"
    using assms(1) by (auto simp: thread_current_Inr is_thread_def)
  then show ?thesis
    using assms
    by (simp add: thread_sleep_def intr_defs sleeping_queue_insert_ordered_def thread_upd_def)
qed

lemma example_kernel_facts:
  "sleeping_queue_ok example_kernel"
  "is_thread 3 example_kernel" "status (mem example_kernel 3) = THREAD_BLOCKED"
  "is_thread 4 example_kernel" "status (mem example_kernel 4) = THREAD_BLOCKED"
  "sleeping_list example_kernel = [3, 4]" "ready_list example_kernel = [5]"
  "wake_of example_kernel 3 = 5" "wake_of example_kernel 4 = 9"
  "thread_current example_kernel = Inr 1" "\<not> intr_context example_kernel"
  "1 \<noteq> idle_thread example_kernel"
  "sleeping_list_min_wakeup_time_ticks example_kernel \<noteq> SLEEPING_QUEUE_EMPTY"
  "is_thread (next_of example_kernel) example_kernel"
  "wakeup_time_ticks (mem example_kernel 1) = THREAD_NOT_SLEEPING"
  by (simp_all add: sleeping_queue_ok_def wake_of_def is_thread_def thread_current_def
      running_thread_def next_of_def next_thread_to_run_def example_defs constant_defs)

text \<open>
  C2. \<^verbatim>\<open>thread_init\<close> establishes the invariant \<open>sleeping_queue_ok\<close> of the sleeping
  queue and its cache, and \<^verbatim>\<open>thread_sleep\<close>, its ordered insert and \<^verbatim>\<open>thread_wakeup\<close>
  preserve it: whenever they return, the list is sorted ascending by wake-up time and the
  cache is \<^verbatim>\<open>SLEEPING_QUEUE_EMPTY\<close> if and only if the list is empty, and otherwise the
  wake-up time of its front (and, as the invariant also says, no thread is in the list
  twice and every wake-up time in it is positive).
\<close>

theorem sleeping_queue_invariant:
  "(\<forall>s'. thread_init s = Inr s' \<longrightarrow> sleeping_queue_ok s')
   \<and> (sleeping_queue_ok s \<longrightarrow>
        (\<forall>s'. thread_sleep w now s = Inr s' \<longrightarrow> sleeping_queue_ok s')
        \<and> (\<forall>s'. thread_wakeup now s = Inr s' \<longrightarrow> sleeping_queue_ok s')
        \<and> (\<forall>s'. t \<notin> set (sleeping_list s) \<and> sleeping_queue_insert_ordered t s = Inr s'
               \<longrightarrow> sleeping_queue_ok s'))"
proof (intro conjI allI impI)
  fix s'
  assume "thread_init s = Inr s'"
  then show "sleeping_queue_ok s'"
    by (rule thread_init_establishes)
next
  fix s'
  assume "sleeping_queue_ok s" and "thread_sleep w now s = Inr s'"
  then show "sleeping_queue_ok s'"
    by (rule thread_sleep_preserves)
next
  fix s'
  assume "sleeping_queue_ok s" and "thread_wakeup now s = Inr s'"
  then show "sleeping_queue_ok s'"
    by (rule thread_wakeup_preserves)
next
  fix s'
  assume ok: "sleeping_queue_ok s"
    and "t \<notin> set (sleeping_list s) \<and> sleeping_queue_insert_ordered t s = Inr s'"
  then have "t \<notin> set (sleeping_list s)" and "sleeping_queue_insert_ordered t s = Inr s'"
    by simp_all
  from sleeping_queue_insert_ordered_ok [OF ok this] show "sleeping_queue_ok s'"
    by simp
qed

theorem sleeping_queue_invariant_witness:
  "(\<exists>s'. thread_init boot_kernel = Inr s' \<and> sleeping_queue_ok s')
   \<and> sleeping_queue_ok example_kernel
   \<and> (\<exists>s'. thread_sleep 7 3 example_kernel = Inr s' \<and> sleeping_queue_ok s'
          \<and> set (sleeping_list s') = {1, 3, 4})
   \<and> (\<exists>s'. thread_wakeup 5 example_kernel = Inr s' \<and> sleeping_queue_ok s')
   \<and> sleeping_queue_ok inserting_kernel \<and> 1 \<notin> set (sleeping_list inserting_kernel)
   \<and> (\<exists>s'. sleeping_queue_insert_ordered 1 inserting_kernel = Inr s'
          \<and> sleeping_list s' = [3, 1, 4] \<and> sleeping_queue_ok s')"
proof -
  note e = example_kernel_facts
  have v: "\<forall>t\<in>set (sleeping_list example_kernel).
             is_thread t example_kernel \<and> status (mem example_kernel t) = THREAD_BLOCKED"
    by (simp add: e)
  have "\<exists>s'. thread_init boot_kernel = Inr s'"
    by (simp add: thread_init_def init_thread_def allocate_tid_def intr_defs thread_upd_def
        running_thread_def boot_kernel_def constant_defs Let_def)
  then have 1: "\<exists>s'. thread_init boot_kernel = Inr s' \<and> sleeping_queue_ok s'"
    using sleeping_queue_invariant [where s = boot_kernel] by blast
  from thread_sleep_returns [OF e(10,11), of 7 3] e(12,13,14)
  obtain s1 where "thread_sleep 7 3 example_kernel = Inr s1"
    and "set (sleeping_list s1) = insert 1 (set (sleeping_list example_kernel))"
    by auto
  then have 2: "\<exists>s'. thread_sleep 7 3 example_kernel = Inr s' \<and> sleeping_queue_ok s'
          \<and> set (sleeping_list s') = {1, 3, 4}"
    using sleeping_queue_invariant [where s = example_kernel and w = 7 and now = 3] e(1)
    by (auto simp: e)
  from thread_wakeup_returns [OF e(1) v, of 5]
  have 3: "\<exists>s'. thread_wakeup 5 example_kernel = Inr s' \<and> sleeping_queue_ok s'"
    using sleeping_queue_invariant [where s = example_kernel and now = 5] e(1) by blast
  have i: "sleeping_queue_ok inserting_kernel" "1 \<notin> set (sleeping_list inserting_kernel)"
    by (simp_all add: sleeping_queue_ok_def wake_of_def inserting_kernel_def example_defs
        constant_defs)
  have "sleeping_queue_insert_ordered 1 inserting_kernel
          = Inr (inserting_kernel\<lparr>sleeping_list := [3, 1, 4]\<rparr>)"
    by (simp add: sleeping_queue_insert_ordered_def wakeup_time_ticks_less_than_def
        inserting_kernel_def example_defs constant_defs)
  then have 4: "\<exists>s'. sleeping_queue_insert_ordered 1 inserting_kernel = Inr s'
          \<and> sleeping_list s' = [3, 1, 4] \<and> sleeping_queue_ok s'"
    using sleeping_queue_invariant [where s = inserting_kernel and t = 1] i by auto
  show ?thesis
    using 1 2 3 4 e(1) i by blast
qed

text \<open>
  C1. In a kernel whose sleeping queue satisfies its invariant, every call of
  \<^verbatim>\<open>thread_wakeup\<close> that returns leaves a state where: no thread left in the sleeping
  list has a wake-up time at or before the tick read at the start; the threads taken out
  are exactly those of the list with a wake-up time at or before that tick; each of them
  has its wake-up time reset to \<^verbatim>\<open>THREAD_NOT_SLEEPING\<close> and is ready; and they were
  appended to the ready list in ascending order of wake-up time. The interrupt level and
  the running thread are as before. And the call does return when the sleepers are valid,
  blocked threads.
\<close>

theorem thread_wakeup_spec:
  assumes ok: "sleeping_queue_ok s"
  shows "(\<forall>s'. thread_wakeup now s = Inr s' \<longrightarrow>
       (\<forall>t\<in>set (sleeping_list s'). now < wake_of s' t)
       \<and> sleeping_list s' = filter (\<lambda>t. now < wake_of s t) (sleeping_list s)
       \<and> ready_list s' = ready_list s @ filter (\<lambda>t. wake_of s t \<le> now) (sleeping_list s)
       \<and> sorted (map (wake_of s) (filter (\<lambda>t. wake_of s t \<le> now) (sleeping_list s)))
       \<and> (\<forall>t\<in>set (sleeping_list s). wake_of s t \<le> now \<longrightarrow>
             wake_of s' t = THREAD_NOT_SLEEPING \<and> status (mem s' t) = THREAD_READY)
       \<and> intr_level s' = intr_level s \<and> running_thread s' = running_thread s)
     \<and> ((\<forall>t\<in>set (sleeping_list s). is_thread t s \<and> status (mem s t) = THREAD_BLOCKED)
          \<longrightarrow> (\<exists>s'. thread_wakeup now s = Inr s'))"
proof (intro conjI allI impI)
  fix s'
  assume r: "thread_wakeup now s = Inr s'"
  have s': "s' = drained SLEEPING_QUEUE_EMPTY now s"
    using ok r by (rule thread_wakeup_result)
  have so: "sorted (map (wake_of s) (sleeping_list s))"
    using ok by (simp add: sleeping_queue_ok_def)
  note tw = sorted_takeWhile_filter [OF so, of now] and dw = sorted_dropWhile_filter [OF so, of now]
  note f1 = drained_facts(1) [OF ok, where now = now and m = SLEEPING_QUEUE_EMPTY,
      folded s', unfolded tw dw]
    and f2 = drained_facts(2) [OF ok, where now = now and m = SLEEPING_QUEUE_EMPTY,
      folded s', unfolded tw dw]
    and f3 = drained_facts(3) [OF ok, where now = now, unfolded tw dw]
  show p1: "sleeping_list s' = filter (\<lambda>t. now < wake_of s t) (sleeping_list s)"
    and "ready_list s' = ready_list s @ filter (\<lambda>t. wake_of s t \<le> now) (sleeping_list s)"
    and "intr_level s' = intr_level s" and "running_thread s' = running_thread s"
    by (simp_all add: s' drained_sel tw dw running_thread_def)
  show "\<forall>t\<in>set (sleeping_list s'). now < wake_of s' t"
  proof
    fix t
    assume "t \<in> set (sleeping_list s')"
    then have "t \<in> set (filter (\<lambda>t. now < wake_of s t) (sleeping_list s))"
      by (simp only: p1)
    then have "wake_of s' t = wake_of s t \<and> now < wake_of s t"
      by (rule f1 [rule_format])
    then show "now < wake_of s' t"
      by simp
  qed
  show "\<forall>t\<in>set (sleeping_list s). wake_of s t \<le> now \<longrightarrow>
           wake_of s' t = THREAD_NOT_SLEEPING \<and> status (mem s' t) = THREAD_READY"
  proof (intro ballI impI)
    fix t
    assume "t \<in> set (sleeping_list s)" and "wake_of s t \<le> now"
    then have "t \<in> set (filter (\<lambda>t. wake_of s t \<le> now) (sleeping_list s))"
      by simp
    then show "wake_of s' t = THREAD_NOT_SLEEPING \<and> status (mem s' t) = THREAD_READY"
      by (rule f2 [rule_format])
  qed
  show "sorted (map (wake_of s) (filter (\<lambda>t. wake_of s t \<le> now) (sleeping_list s)))"
    by (rule f3)
next
  assume "\<forall>t\<in>set (sleeping_list s). is_thread t s \<and> status (mem s t) = THREAD_BLOCKED"
  with ok show "\<exists>s'. thread_wakeup now s = Inr s'"
    by (rule thread_wakeup_returns)
qed

theorem thread_wakeup_spec_witness:
  "sleeping_queue_ok example_kernel
   \<and> is_thread 3 example_kernel \<and> status (mem example_kernel 3) = THREAD_BLOCKED
   \<and> is_thread 4 example_kernel \<and> status (mem example_kernel 4) = THREAD_BLOCKED
   \<and> sleeping_list example_kernel = [3, 4] \<and> ready_list example_kernel = [5]
   \<and> wake_of example_kernel 3 = 5 \<and> wake_of example_kernel 4 = 9
   \<and> (\<exists>s'. thread_wakeup 5 example_kernel = Inr s'
          \<and> sleeping_list s' = [4] \<and> 5 < wake_of s' 4 \<and> ready_list s' = [5, 3]
          \<and> wake_of s' 3 = THREAD_NOT_SLEEPING \<and> status (mem s' 3) = THREAD_READY
          \<and> intr_level s' = intr_level example_kernel
          \<and> running_thread s' = running_thread example_kernel)"
proof -
  note e = example_kernel_facts
  have v: "\<forall>t\<in>set (sleeping_list example_kernel).
             is_thread t example_kernel \<and> status (mem example_kernel t) = THREAD_BLOCKED"
    by (simp add: e)
  have f: "filter (\<lambda>t. 5 < wake_of example_kernel t) (sleeping_list example_kernel) = [4]"
    "filter (\<lambda>t. wake_of example_kernel t \<le> 5) (sleeping_list example_kernel) = [3]"
    by (simp_all add: e)
  note w = thread_wakeup_spec [OF e(1), of 5, unfolded f]
  from w v obtain s' where r: "thread_wakeup 5 example_kernel = Inr s'"
    by blast
  with w have a: "\<forall>t\<in>set (sleeping_list s'). 5 < wake_of s' t"
      and sl: "sleeping_list s' = [4]" and rl: "ready_list s' = ready_list example_kernel @ [3]"
      and b: "\<forall>t\<in>set (sleeping_list example_kernel). wake_of example_kernel t \<le> 5 \<longrightarrow>
           wake_of s' t = THREAD_NOT_SLEEPING \<and> status (mem s' t) = THREAD_READY"
      and il: "intr_level s' = intr_level example_kernel"
      and ru: "running_thread s' = running_thread example_kernel"
    by blast+
  have "5 < wake_of s' 4"
    using a sl by simp
  moreover have "wake_of s' 3 = THREAD_NOT_SLEEPING \<and> status (mem s' 3) = THREAD_READY"
    using b by (simp add: e)
  ultimately have "\<exists>s'. thread_wakeup 5 example_kernel = Inr s'
          \<and> sleeping_list s' = [4] \<and> 5 < wake_of s' 4 \<and> ready_list s' = [5, 3]
          \<and> wake_of s' 3 = THREAD_NOT_SLEEPING \<and> status (mem s' 3) = THREAD_READY
          \<and> intr_level s' = intr_level example_kernel
          \<and> running_thread s' = running_thread example_kernel"
    using r sl rl il ru by (auto simp: e)
  then show ?thesis
    using e by simp
qed

text \<open>
  C3. \<^verbatim>\<open>thread_sleep\<close> accepts a wake-up time of 0 (\<^verbatim>\<open>ASSERT (wakeup_time_ticks >= 0)\<close>),
  and at tick 0 that time is not yet past; the caller, outside an interrupt and with no
  wake-up time set, then fails \<^verbatim>\<open>ASSERT (t->wakeup_time_ticks > 0)\<close> in
  \<^verbatim>\<open>sleeping_queue_insert_ordered\<close>.
\<close>

theorem thread_sleep_zero_deadline:
  "thread_current example_kernel = Inr 1 \<and> \<not> intr_context example_kernel
   \<and> wakeup_time_ticks (mem example_kernel 1) = THREAD_NOT_SLEEPING
   \<and> thread_sleep 0 0 example_kernel = Inl Insert_wakeup_time"
  using thread_sleep_zero [OF example_kernel_facts(10,11,12)] example_kernel_facts(10,11,15)
  by simp

subsection \<open>The tail of a thread switch\<close>

lemma reaped_cong:
  assumes "reaped d s" and "esp_page s' = esp_page s"
    and "set (ready_list s') \<subseteq> insert c (set (ready_list s))"
    and "set (sleeping_list s') \<subseteq> insert c (set (sleeping_list s))"
    and "idle_thread s' = idle_thread s" and "status (mem s' d) = status (mem s d)"
    and "c \<noteq> d"
  shows "reaped d s'"
  using assms by (auto simp: reaped_def running_thread_def)

lemma schedule_kept:
  assumes g: "reaped d s" and r: "schedule s = Inr s'"
  shows "kept d s s'"
proof -
  have s': "s' = dispatched s"
    using r by (auto simp: schedule_eq split: if_splits)
  have n: "next_of s \<noteq> d"
    using g by (cases "ready_list s")
      (auto simp: reaped_def next_of_def next_thread_to_run_def)
  have "d \<notin> set (tl (ready_list s))"
    using g by (cases "ready_list s") (auto simp: reaped_def)
  then show ?thesis
    using g n by (auto simp: kept_def reaped_def s' dispatched_def running_thread_def Let_def)
qed

lemma kept_trans:
  "kept d s3 s4 \<Longrightarrow> freed_pages s3 = freed_pages s \<Longrightarrow> kept d s s4"
  by (simp add: kept_def)

lemma kept_resume:
  "kept d s s4 \<Longrightarrow> kept d s (resume cur l s4)"
  by (simp add: kept_def reaped_def resume_def intr_defs running_thread_def)

lemma thread_yield_kept:
  assumes g: "reaped d s" and r: "thread_yield s = Inr s'"
  shows "kept d s s'"
proof -
  from r obtain cur where c: "thread_current s = Inr cur"
    by (cases "thread_current s") (auto simp: thread_yield_def)
  then have cd: "cur \<noteq> d"
    using g by (auto simp: thread_current_Inr reaped_def)
  have i: "\<not> intr_context s"
    using r c by (cases "intr_context s") (simp_all add: thread_yield_def)
  define s3 where "s3 = thread_upd cur (\<lambda>th. th\<lparr>status := THREAD_READY\<rparr>)
     (if cur \<noteq> idle_thread s
      then s\<lparr>intr_level := INTR_OFF, ready_list := ready_list s @ [cur]\<rparr>
      else s\<lparr>intr_level := INTR_OFF\<rparr>)"
  have y: "thread_yield s =
     (case schedule s3 of Inl e \<Rightarrow> Inl e | Inr s4 \<Rightarrow> Inr (resume cur (intr_level s) s4))"
    by (simp add: thread_yield_def c i intr_defs s3_def)
  from r obtain s4 where sc: "schedule s3 = Inr s4"
    and s': "s' = resume cur (intr_level s) s4"
    unfolding y by (cases "schedule s3") auto
  have "reaped d s3"
    using cd by (intro reaped_cong [OF g, where c = cur])
      (auto simp: s3_def thread_upd_def)
  then have "kept d s3 s4"
    using sc by (rule schedule_kept)
  moreover have "freed_pages s3 = freed_pages s"
    by (simp add: s3_def thread_upd_def)
  ultimately show ?thesis
    unfolding s' by (blast intro: kept_resume kept_trans)
qed


lemma thread_block_kept:
  assumes g: "reaped d s" and r: "thread_block s = Inr s'"
  shows "kept d s s'"
proof -
  from r obtain cur where c: "thread_current s = Inr cur"
    by (cases "thread_current s") (auto simp: thread_block_def split: if_splits)
  then have cd: "cur \<noteq> d"
    using g by (auto simp: thread_current_Inr reaped_def)
  define s3 where "s3 = thread_upd cur (\<lambda>th. th\<lparr>status := THREAD_BLOCKED\<rparr>) s"
  have sc: "schedule s3 = Inr s'"
    using r c by (auto simp: thread_block_def s3_def split: if_splits)
  have "reaped d s3"
    using cd by (intro reaped_cong [OF g, where c = cur]) (auto simp: s3_def thread_upd_def)
  then have "kept d s3 s'"
    using sc by (rule schedule_kept)
  moreover have "freed_pages s3 = freed_pages s"
    by (simp add: s3_def thread_upd_def)
  ultimately show ?thesis
    by (rule kept_trans)
qed

lemma thread_exit_kept:
  assumes g: "reaped d s" and r: "thread_exit s = Inr s'"
  shows "kept d s s'"
proof -
  have i: "\<not> intr_context s"
    using r by (cases "intr_context s") (simp_all add: thread_exit_def)
  from r i obtain cur where c: "thread_current s = Inr cur"
    by (cases "thread_current s") (auto simp: thread_exit_def intr_defs thread_current_frame)
  then have cd: "cur \<noteq> d"
    using g by (auto simp: thread_current_Inr reaped_def)
  define s3 where "s3 = thread_upd cur (\<lambda>th. th\<lparr>status := THREAD_DYING\<rparr>)
      (s\<lparr>intr_level := INTR_OFF, all_list := remove1 cur (all_list s)\<rparr>)"
  have y: "thread_exit s =
     (case schedule s3 of Inl e \<Rightarrow> Inl e
      | Inr s4 \<Rightarrow> if running_thread s4 = cur then Inl Exit_not_reached else Inr s4)"
    by (simp add: thread_exit_def i c intr_defs thread_current_frame s3_def)
  have sc: "schedule s3 = Inr s'"
    using r unfolding y by (cases "schedule s3") (auto split: if_splits)
  have "reaped d s3"
    using cd by (intro reaped_cong [OF g, where c = cur]) (auto simp: s3_def thread_upd_def)
  then have "kept d s3 s'"
    using sc by (rule schedule_kept)
  moreover have "freed_pages s3 = freed_pages s"
    by (simp add: s3_def thread_upd_def)
  ultimately show ?thesis
    by (rule kept_trans)
qed

lemma thread_unblock_kept:
  assumes g: "reaped d s" and r: "thread_unblock t s = Inr s'"
  shows "kept d s s'"
proof -
  have b: "is_thread t s" "status (mem s t) = THREAD_BLOCKED"
    using thread_unblock_Inr [OF r] by simp_all
  then have td: "t \<noteq> d"
    using g by (auto simp: reaped_def)
  have s': "s' = s\<lparr>ready_list := ready_list s @ [t],
              sleeping_list := cut_at t (sleeping_list s),
              mem := (mem s)(t := (mem s t)\<lparr>status := THREAD_READY\<rparr>)\<rparr>"
    using r thread_unblock_ok [OF b] by simp
  have "reaped d s'"
    using td set_cut_at [of t "sleeping_list s"]
    by (intro reaped_cong [OF g, where c = t]) (auto simp: s')
  then show ?thesis
    by (simp add: kept_def s')
qed

lemma sleeping_queue_insert_ordered_frame:
  assumes "sleeping_queue_insert_ordered t s = Inr s'"
  shows "\<exists>q m. s' = s\<lparr>sleeping_list := q, sleeping_list_min_wakeup_time_ticks := m\<rparr>
           \<and> set q = insert t (set (sleeping_list s))"
proof (cases "sleeping_list_min_wakeup_time_ticks s = SLEEPING_QUEUE_EMPTY
      \<or> wake_of s t \<le> sleeping_list_min_wakeup_time_ticks s")
  case True
  then have "s' = s\<lparr>sleeping_list := t # sleeping_list s,
                 sleeping_list_min_wakeup_time_ticks := wake_of s t\<rparr>"
    using assms by (auto simp: sleeping_queue_insert_ordered_def wake_of_def split: if_splits)
  then show ?thesis
    by auto
next
  case False
  let ?q = "list_insert_ordered (sleeping_list s) t (wakeup_time_ticks_less_than s)"
  have "s' = s\<lparr>sleeping_list := ?q\<rparr>"
    using False assms
    by (auto simp: sleeping_queue_insert_ordered_def wake_of_def split: if_splits)
  then have "s' = s\<lparr>sleeping_list := ?q,
       sleeping_list_min_wakeup_time_ticks := sleeping_list_min_wakeup_time_ticks s\<rparr>"
    by simp
  moreover have "set ?q = insert t (set (sleeping_list s))"
    by (rule set_list_insert_ordered)
  ultimately show ?thesis
    by blast
qed

lemma thread_sleep_kept:
  assumes g: "reaped d s" and r: "thread_sleep w now s = Inr s'"
  shows "kept d s s'"
proof (cases "w < now")
  case True
  then have "s' = s"
    using r by (simp add: thread_sleep_def split: if_splits)
  then show ?thesis
    using g by (simp add: kept_def)
next
  case False
  from r False obtain cur where c: "thread_current s = Inr cur"
    by (cases "thread_current s") (auto simp: thread_sleep_def split: if_splits)
  then have cd: "cur \<noteq> d"
    using g by (auto simp: thread_current_Inr reaped_def)
  show ?thesis
  proof (cases "cur = idle_thread s")
    case True
    then have "s' = s\<lparr>intr_level := intr_level s\<rparr>"
      using r False c by (auto simp: thread_sleep_def intr_defs split: if_splits)
    then show ?thesis
      using g by (simp add: kept_def)
  next
    case idle: False
    define s3 where "s3 = thread_upd cur (\<lambda>th. th\<lparr>wakeup_time_ticks := w\<rparr>)
       (thread_upd cur (\<lambda>th. th\<lparr>status := THREAD_BLOCKED\<rparr>) (s\<lparr>intr_level := INTR_OFF\<rparr>))"
    from r False c idle obtain s4 s5
      where i4: "sleeping_queue_insert_ordered cur s3 = Inr s4"
        and sc: "schedule s4 = Inr s5"
        and s': "s' = resume cur (intr_level s) s5"
      by (auto simp: thread_sleep_def intr_defs s3_def split: if_splits sum.splits)
    from sleeping_queue_insert_ordered_frame [OF i4] obtain q m
      where s4: "s4 = s3\<lparr>sleeping_list := q, sleeping_list_min_wakeup_time_ticks := m\<rparr>"
        and q: "set q = insert cur (set (sleeping_list s3))"
      by blast
    have "reaped d s4"
      using cd q by (intro reaped_cong [OF g, where c = cur])
        (auto simp: s4 s3_def thread_upd_def)
    then have "kept d s4 s5"
      using sc by (rule schedule_kept)
    moreover have "freed_pages s4 = freed_pages s"
      by (simp add: s4 s3_def thread_upd_def)
    ultimately show ?thesis
      unfolding s' by (blast intro: kept_resume kept_trans)
  qed
qed


lemma wakeup_loop_kept:
  assumes "reaped d s" and "wakeup_loop now s = Inr s'"
  shows "kept d s s'"
  using assms
proof (induction s rule: measure_induct_rule [where f = "\<lambda>s. length (sleeping_list s)"])
  case (less s)
  show ?case
  proof (cases "sleeping_list s")
    case Nil
    then show ?thesis
      using less.prems by (simp add: wakeup_loop_Nil kept_def)
  next
    case (Cons h rest)
    show ?thesis
    proof (cases "wake_of s h \<le> now")
      case False
      then have "s' = s\<lparr>sleeping_list_min_wakeup_time_ticks := wake_of s h\<rparr>"
        using less.prems Cons by (auto simp: wakeup_loop_Cons split: if_splits)
      then show ?thesis
        using less.prems(1) by (simp add: kept_def reaped_def running_thread_def)
    next
      case True
      define s3 where "s3 = s\<lparr>ready_list := ready_list s @ [h],
         sleeping_list := cut_at h rest,
         mem := (mem s)(h := (mem s h)\<lparr>wakeup_time_ticks := THREAD_NOT_SLEEPING,
                                          status := THREAD_READY\<rparr>)\<rparr>"
      have l: "wakeup_loop now s3 = Inr s'"
        using less.prems Cons True by (auto simp: wakeup_loop_Cons s3_def split: if_splits)
      have hd: "h \<noteq> d"
        using less.prems(1) Cons by (auto simp: reaped_def)
      have sub: "set (cut_at h rest) \<subseteq> set (sleeping_list s)"
        using set_cut_at [of h rest] Cons by auto
      have "reaped d s3"
        using hd sub
        by (intro reaped_cong [OF less.prems(1), where c = h]) (auto simp: s3_def)
      moreover have "length (sleeping_list s3) < length (sleeping_list s)"
        using length_cut_at [of h rest] Cons by (simp add: s3_def)
      ultimately have "kept d s3 s'"
        using l by (intro less.IH)
      moreover have "freed_pages s3 = freed_pages s"
        by (simp add: s3_def)
      ultimately show ?thesis
        by (rule kept_trans)
    qed
  qed
qed

lemma thread_wakeup_kept:
  assumes g: "reaped d s" and r: "thread_wakeup now s = Inr s'"
  shows "kept d s s'"
proof (cases "sleeping_list_min_wakeup_time_ticks s = SLEEPING_QUEUE_EMPTY
              \<or> now < sleeping_list_min_wakeup_time_ticks s")
  case True
  then have "s' = s"
    using r by (auto simp: thread_wakeup_def split: if_splits)
  then show ?thesis
    using g by (simp add: kept_def)
next
  case False
  define s1 where "s1 = s\<lparr>intr_level := INTR_OFF\<rparr>"
  from r False obtain s2 where l: "wakeup_loop now s1 = Inr s2"
    and s': "s' = (if sleeping_list s2 = []
                   then s2\<lparr>sleeping_list_min_wakeup_time_ticks := SLEEPING_QUEUE_EMPTY\<rparr>
                   else s2)\<lparr>intr_level := intr_level s\<rparr>"
    by (auto simp: thread_wakeup_def intr_defs s1_def split: if_splits sum.splits)
  have "reaped d s1"
    using g by (simp add: reaped_def s1_def running_thread_def)
  then have "kept d s1 s2"
    using l by (rule wakeup_loop_kept)
  then show ?thesis
    by (simp add: kept_def reaped_def s' s1_def running_thread_def)
qed

lemma thread_tick_kept:
  assumes g: "reaped d s" and r: "thread_tick userprog s = Inr s'"
  shows "kept d s s'"
  using assms
  by (cases "thread_current s")
    (auto simp: thread_tick_def kept_def reaped_def intr_defs running_thread_def Let_def
      split: if_splits)

lemma thread_set_priority_kept:
  assumes g: "reaped d s" and r: "thread_set_priority p s = Inr s'"
  shows "kept d s s'"
  using assms
  by (cases "thread_current s")
    (auto simp: thread_set_priority_def kept_def reaped_def thread_upd_def running_thread_def)

lemma threads_count_kept:
  assumes g: "reaped d s"
  shows "kept d s (snd (threads_ready s))" and "kept d s (snd (threads_sleeping s))"
  using assms
  by (auto simp: threads_ready_def threads_sleeping_def kept_def reaped_def intr_defs
      running_thread_def Let_def)

lemma thread_upd_sel:
  "intr_level (thread_upd t f s) = intr_level s"
  "freed_pages (thread_upd t f s) = freed_pages s"
  "ready_list (thread_upd t f s) = ready_list s"
  "sleeping_list (thread_upd t f s) = sleeping_list s"
  "esp_page (thread_upd t f s) = esp_page s"
  "idle_thread (thread_upd t f s) = idle_thread s"
  by (simp_all add: thread_upd_def)

lemma alloc_frame_frame:
  assumes "alloc_frame t sz fr s = Inr s'"
  shows "s' = thread_upd t (\<lambda>th. th\<lparr>stack := fr # stack th\<rparr>) s"
  using assms by (auto simp: alloc_frame_def split: if_splits)

lemma thread_create_kept:
  assumes g: "reaped d s" and r: "thread_create lay page nm prio function aux s = Inr (i, s')"
    and p: "page \<noteq> d"
  shows "kept d s s'"
proof (cases "page = NULL")
  case True
  then have "s' = s"
    using r by (auto simp: thread_create_def split: if_splits)
  then show ?thesis
    using g by (simp add: kept_def)
next
  case False
  from r False obtain s1 where i1: "init_thread page nm prio s = Inr s1"
    by (cases "init_thread page nm prio s") (auto simp: thread_create_def split: if_splits)
  define s4 where "s4 = (thread_upd page (\<lambda>th. th\<lparr>tid := next_tid s1\<rparr>)
                          (s1\<lparr>next_tid := next_tid s1 + 1\<rparr>))\<lparr>intr_level := INTR_OFF\<rparr>"
  from r False i1 obtain s5 s6 s7
    where a5: "alloc_frame page (sizeof_kf lay) (Kernel_thread_frame NULL function aux) s4 = Inr s5"
      and a6: "alloc_frame page (sizeof_ef lay) (Switch_entry_frame (kernel_thread_addr lay)) s5
                 = Inr s6"
      and a7: "alloc_frame page (sizeof_sf lay) (Switch_threads_frame (switch_entry_addr lay) 0) s6
                 = Inr s7"
      and u: "thread_unblock page (intr_set_level (intr_level s1) s7) = Inr s'"
    by (auto simp: thread_create_def allocate_tid_def intr_defs s4_def Let_def thread_upd_sel
        split: if_splits sum.splits)
  have g1: "reaped d s1"
    using i1 p
    by (intro reaped_cong [OF g, where c = page])
      (auto simp: init_thread_def intr_defs thread_upd_def Let_def
        split: if_splits option.splits)
  have f1: "freed_pages s1 = freed_pages s"
    using i1
    by (auto simp: init_thread_def intr_defs thread_upd_def Let_def
        split: if_splits option.splits)
  have "reaped d (intr_set_level (intr_level s1) s7)"
    using p
    by (intro reaped_cong [OF g1, where c = page])
      (auto simp: alloc_frame_frame [OF a5] alloc_frame_frame [OF a6]
        alloc_frame_frame [OF a7] s4_def thread_upd_def intr_defs)
  then have "kept d (intr_set_level (intr_level s1) s7) s'"
    using u by (rule thread_unblock_kept)
  moreover have "freed_pages (intr_set_level (intr_level s1) s7) = freed_pages s"
    by (simp add: alloc_frame_frame [OF a5] alloc_frame_frame [OF a6]
        alloc_frame_frame [OF a7] s4_def thread_upd_def intr_defs f1)
  ultimately show ?thesis
    by (rule kept_trans)
qed

lemma returns_to_kept:
  assumes "returns_to d s s'" and "reaped d s"
  shows "kept d s s'"
  using assms
proof (cases rule: returns_to.cases)
  case (ready n)
  then show ?thesis
    using threads_count_kept(1) [OF assms(2)] by simp
next
  case (sleeping n)
  then show ?thesis
    using threads_count_kept(2) [OF assms(2)] by simp
qed (auto intro: thread_tick_kept thread_create_kept thread_block_kept thread_unblock_kept
    thread_sleep_kept thread_wakeup_kept thread_exit_kept thread_yield_kept
    thread_set_priority_kept)

lemma returns_to_star_kept:
  assumes "(returns_to d)\<^sup>*\<^sup>* s s'" and "reaped d s"
  shows "kept d s s'"
  using assms
proof (induction rule: rtranclp_induct)
  case base
  then show ?case
    by (simp add: kept_def)
next
  case (step y z)
  then have "kept d s y"
    by simp
  moreover from this have "kept d y z"
    using step.hyps(2) by (intro returns_to_kept) (simp_all add: kept_def)
  ultimately show ?case
    by (simp add: kept_def)
qed


lemma thread_exit_reaped:
  assumes r: "thread_exit s = Inr s1" and ni: "running_thread s \<noteq> initial_thread s"
    and nr: "running_thread s \<notin> set (ready_list s)"
    and ns: "running_thread s \<notin> set (sleeping_list s)"
    and nd: "running_thread s \<noteq> idle_thread s"
  shows "reaped (running_thread s) s1
         \<and> freed_pages s1 = freed_pages s @ [running_thread s]"
proof -
  have i: "\<not> intr_context s"
    using r by (cases "intr_context s") (simp_all add: thread_exit_def)
  from r i obtain cur where c: "thread_current s = Inr cur"
    by (cases "thread_current s") (auto simp: thread_exit_def intr_defs thread_current_frame)
  then have cur: "running_thread s = cur" "cur \<noteq> NULL"
    by (auto simp: thread_current_Inr is_thread_def)
  define s3 where "s3 = thread_upd cur (\<lambda>th. th\<lparr>status := THREAD_DYING\<rparr>)
      (s\<lparr>intr_level := INTR_OFF, all_list := remove1 cur (all_list s)\<rparr>)"
  have y: "thread_exit s =
     (case schedule s3 of Inl e \<Rightarrow> Inl e
      | Inr s4 \<Rightarrow> if running_thread s4 = cur then Inl Exit_not_reached else Inr s4)"
    by (simp add: thread_exit_def i c intr_defs thread_current_frame s3_def)
  have sc: "schedule s3 = Inr s1" and ru: "running_thread s1 \<noteq> cur"
    using r unfolding y by (cases "schedule s3"; auto split: if_splits)+
  have s1: "s1 = dispatched s3"
    using sc by (auto simp: schedule_eq split: if_splits)
  have nx: "next_of s3 \<noteq> cur"
    using ru by (simp add: s1 dispatched_def running_thread_def Let_def)
  have "cur \<notin> set (tl (ready_list s))"
    using nr cur by (cases "ready_list s") auto
  then have "reaped cur s1"
    using ns nd nx cur
    by (auto simp: reaped_def s1 dispatched_def Let_def s3_def thread_upd_def
        running_thread_def)
  moreover have "freed_pages s1 = freed_pages s @ [cur]"
    using nx ni cur
    by (auto simp: s1 dispatched_def Let_def s3_def thread_upd_def running_thread_def)
  ultimately show ?thesis
    by (simp add: cur)
qed

lemma thread_exit_reaps_once:
  assumes r: "thread_exit s = Inr s1" and ni: "running_thread s \<noteq> initial_thread s"
    and nr: "running_thread s \<notin> set (ready_list s)"
    and ns: "running_thread s \<notin> set (sleeping_list s)"
    and nd: "running_thread s \<noteq> idle_thread s"
    and st: "(returns_to (running_thread s))\<^sup>*\<^sup>* s1 s2"
  shows "count_list (freed_pages s2) (running_thread s)
           = count_list (freed_pages s) (running_thread s) + 1"
proof -
  from thread_exit_reaped [OF r ni nr ns nd]
  have g: "reaped (running_thread s) s1"
    and f: "freed_pages s1 = freed_pages s @ [running_thread s]"
    by simp_all
  from returns_to_star_kept [OF st g]
  have "count_list (freed_pages s2) (running_thread s)
          = count_list (freed_pages s1) (running_thread s)"
    by (simp add: kept_def)
  then show ?thesis
    by (simp add: f)
qed

text \<open>
  C8. \<^verbatim>\<open>thread_schedule_tail (prev)\<close>, called with interrupts off for a \<open>prev\<close> that is
  not the running thread (it is the thread switched from, or \<^verbatim>\<open>NULL\<close>), marks the
  running thread \<^verbatim>\<open>THREAD_RUNNING\<close>, sets \<^verbatim>\<open>thread_ticks\<close> to 0, and frees the page
  of \<open>prev\<close>, once, if and only if \<open>prev\<close> is not \<^verbatim>\<open>NULL\<close>, is dying and is not the
  initial thread (called for the running thread itself it frees nothing, and its
  assertion that the two differ cannot fail). So a call of \<^verbatim>\<open>schedule\<close> frees at most
  the thread it switches away
  from, and exactly when that thread is dying and not the initial thread;
  \<^verbatim>\<open>thread_exit\<close> of a thread other than the initial one, with a valid next thread,
  ends with the page of the exiting thread freed once, by the tail that runs in the next
  thread; and whatever calls of thread.c return after that, the page has been freed
  exactly once more than before the exit.
\<close>

theorem thread_schedule_tail_spec:
  "(intr_level s = INTR_OFF \<and> prev \<noteq> running_thread s \<longrightarrow>
      (\<exists>s'. thread_schedule_tail prev s = Inr s'
         \<and> running_thread s' = running_thread s
         \<and> status (mem s' (running_thread s)) = THREAD_RUNNING
         \<and> thread_ticks s' = 0
         \<and> freed_pages s' = freed_pages s @
              (if prev \<noteq> NULL \<and> status (mem s prev) = THREAD_DYING
                  \<and> prev \<noteq> initial_thread s then [prev] else [])))
   \<and> (\<forall>s'. schedule s = Inr s' \<longrightarrow>
         freed_pages s' = freed_pages s @
           (if running_thread s' \<noteq> running_thread s \<and> running_thread s \<noteq> NULL
               \<and> status (mem s (running_thread s)) = THREAD_DYING
               \<and> running_thread s \<noteq> initial_thread s
            then [running_thread s] else []))
   \<and> (thread_current s = Inr cur \<and> \<not> intr_context s \<and> is_thread (next_of s) s
        \<and> next_of s \<noteq> cur \<and> cur \<noteq> initial_thread s \<longrightarrow>
      (\<exists>s'. thread_exit s = Inr s' \<and> running_thread s' = next_of s
         \<and> freed_pages s' = freed_pages s @ [cur]))
   \<and> (\<forall>s1 s2. thread_exit s = Inr s1 \<and> running_thread s \<noteq> initial_thread s
        \<and> running_thread s \<notin> set (ready_list s)
        \<and> running_thread s \<notin> set (sleeping_list s)
        \<and> running_thread s \<noteq> idle_thread s
        \<and> (returns_to (running_thread s))\<^sup>*\<^sup>* s1 s2 \<longrightarrow>
      count_list (freed_pages s2) (running_thread s)
        = count_list (freed_pages s) (running_thread s) + 1)
   \<and> (intr_level s = INTR_OFF \<and> prev = running_thread s \<longrightarrow>
      (\<exists>s'. thread_schedule_tail prev s = Inr s' \<and> freed_pages s' = freed_pages s))"
proof (intro conjI impI allI)
  assume "intr_level s = INTR_OFF \<and> prev \<noteq> running_thread s"
  then show "\<exists>s'. thread_schedule_tail prev s = Inr s'
         \<and> running_thread s' = running_thread s
         \<and> status (mem s' (running_thread s)) = THREAD_RUNNING
         \<and> thread_ticks s' = 0
         \<and> freed_pages s' = freed_pages s @
              (if prev \<noteq> NULL \<and> status (mem s prev) = THREAD_DYING
                  \<and> prev \<noteq> initial_thread s then [prev] else [])"
    by (auto simp: thread_schedule_tail_def palloc_free_page_def thread_upd_def
        running_thread_def Let_def)
next
  fix s'
  assume "schedule s = Inr s'"
  then show "freed_pages s' = freed_pages s @
           (if running_thread s' \<noteq> running_thread s \<and> running_thread s \<noteq> NULL
               \<and> status (mem s (running_thread s)) = THREAD_DYING
               \<and> running_thread s \<noteq> initial_thread s
            then [running_thread s] else [])"
    by (rule schedule_frees)
next
  assume a: "thread_current s = Inr cur \<and> \<not> intr_context s \<and> is_thread (next_of s) s
        \<and> next_of s \<noteq> cur \<and> cur \<noteq> initial_thread s"
  let ?s3 = "thread_upd cur (\<lambda>th. th\<lparr>status := THREAD_DYING\<rparr>)
            (s\<lparr>intr_level := INTR_OFF, all_list := remove1 cur (all_list s)\<rparr>)"
  have nx: "next_of ?s3 = next_of s"
    by (simp add: next_of_def next_thread_to_run_def thread_upd_def split: list.splits)
  have cur: "cur = running_thread s" "cur \<noteq> NULL"
    using a by (simp_all add: thread_current_Inr is_thread_def)
  have "thread_exit s = Inr (dispatched ?s3)"
    using a by (simp add: thread_exit_ok)
  moreover have "running_thread (dispatched ?s3) = next_of s"
    using nx by (simp add: dispatched_def running_thread_def Let_def)
  moreover have "freed_pages (dispatched ?s3) = freed_pages s @ [cur]"
    using a cur nx
    by (simp add: dispatched_def Let_def) (simp add: thread_upd_def running_thread_def)
  ultimately show "\<exists>s'. thread_exit s = Inr s' \<and> running_thread s' = next_of s
         \<and> freed_pages s' = freed_pages s @ [cur]"
    by blast
next
  fix s1 s2
  assume "thread_exit s = Inr s1 \<and> running_thread s \<noteq> initial_thread s
        \<and> running_thread s \<notin> set (ready_list s)
        \<and> running_thread s \<notin> set (sleeping_list s)
        \<and> running_thread s \<noteq> idle_thread s
        \<and> (returns_to (running_thread s))\<^sup>*\<^sup>* s1 s2"
  then show "count_list (freed_pages s2) (running_thread s)
        = count_list (freed_pages s) (running_thread s) + 1"
    by (intro thread_exit_reaps_once [of s s1 s2]) simp_all
next
  assume "intr_level s = INTR_OFF \<and> prev = running_thread s"
  then show "\<exists>s'. thread_schedule_tail prev s = Inr s' \<and> freed_pages s' = freed_pages s"
    by (auto simp: thread_schedule_tail_def palloc_free_page_def thread_upd_def
        running_thread_def Let_def)
qed

theorem thread_schedule_tail_spec_witness:
  "intr_level switched_kernel = INTR_OFF \<and> 5 \<noteq> running_thread switched_kernel
   \<and> (\<exists>s'. thread_schedule_tail 5 switched_kernel = Inr s'
          \<and> running_thread s' = 1 \<and> status (mem s' 1) = THREAD_RUNNING
          \<and> thread_ticks s' = 0 \<and> freed_pages s' = [5])
   \<and> (\<exists>s'. thread_schedule_tail NULL switched_kernel = Inr s' \<and> freed_pages s' = [])
   \<and> (\<exists>s'. schedule dying_kernel = Inr s' \<and> freed_pages s' = [5])
   \<and> thread_current exiting_kernel = Inr 5 \<and> \<not> intr_context exiting_kernel
   \<and> is_thread (next_of exiting_kernel) exiting_kernel
   \<and> next_of exiting_kernel \<noteq> 5 \<and> 5 \<noteq> initial_thread exiting_kernel
   \<and> (\<exists>s'. thread_exit exiting_kernel = Inr s' \<and> running_thread s' = 1
          \<and> freed_pages s' = [5])
   \<and> running_thread exiting_kernel = 5 \<and> 5 \<notin> set (ready_list exiting_kernel)
   \<and> 5 \<notin> set (sleeping_list exiting_kernel) \<and> 5 \<noteq> idle_thread exiting_kernel
   \<and> (\<exists>s1 s2. thread_exit exiting_kernel = Inr s1 \<and> thread_tick False s1 = Inr s2
          \<and> count_list (freed_pages s2) 5 = 1)
   \<and> (\<exists>s'. thread_schedule_tail 1 switched_kernel = Inr s' \<and> freed_pages s' = [])"
proof -
  have sw: "intr_level switched_kernel = INTR_OFF" "5 \<noteq> running_thread switched_kernel"
    "NULL \<noteq> running_thread switched_kernel"
    "running_thread switched_kernel = 1" "freed_pages switched_kernel = []"
    "status (mem switched_kernel 5) = THREAD_DYING" "initial_thread switched_kernel = 1"
    by (simp_all add: exit_defs running_thread_def example_defs constant_defs)
  have dy: "schedule dying_kernel = Inr (dispatched dying_kernel)"
    "running_thread (dispatched dying_kernel) = 1" "running_thread dying_kernel = 5"
    "status (mem dying_kernel 5) = THREAD_DYING" "initial_thread dying_kernel = 1"
    "freed_pages dying_kernel = []"
    by (simp_all add: schedule_eq dispatched_def next_of_def next_thread_to_run_def
        is_thread_def exit_defs running_thread_def example_defs constant_defs)
  have ex: "thread_current exiting_kernel = Inr 5" "\<not> intr_context exiting_kernel"
    "is_thread (next_of exiting_kernel) exiting_kernel" "next_of exiting_kernel \<noteq> 5"
    "5 \<noteq> initial_thread exiting_kernel" "next_of exiting_kernel = 1"
    "freed_pages exiting_kernel = []"
    by (simp_all add: thread_current_def next_of_def next_thread_to_run_def
        is_thread_def exit_defs running_thread_def example_defs constant_defs)
  have "\<exists>s'. thread_schedule_tail 5 switched_kernel = Inr s'
          \<and> running_thread s' = 1 \<and> status (mem s' 1) = THREAD_RUNNING
          \<and> thread_ticks s' = 0 \<and> freed_pages s' = [5]"
    using thread_schedule_tail_spec [of switched_kernel 5] sw
    by (auto simp: NULL_def)
  moreover have "\<exists>s'. thread_schedule_tail NULL switched_kernel = Inr s'
          \<and> freed_pages s' = []"
    using thread_schedule_tail_spec [of switched_kernel NULL] sw
    by auto
  moreover have "\<exists>s'. schedule dying_kernel = Inr s' \<and> freed_pages s' = [5]"
    using thread_schedule_tail_spec [of dying_kernel] dy
    by (auto simp: NULL_def)
  moreover have "\<exists>s'. thread_exit exiting_kernel = Inr s' \<and> running_thread s' = 1
          \<and> freed_pages s' = [5]"
    using thread_schedule_tail_spec [of exiting_kernel _ 5] ex
    by auto
  moreover have "\<exists>s'. thread_schedule_tail 1 switched_kernel = Inr s'
          \<and> freed_pages s' = []"
    using thread_schedule_tail_spec [of switched_kernel 1] sw
    by auto
  moreover have ex5: "running_thread exiting_kernel = 5"
    "5 \<notin> set (ready_list exiting_kernel)" "5 \<notin> set (sleeping_list exiting_kernel)"
    "5 \<noteq> idle_thread exiting_kernel"
    by (simp_all add: exit_defs running_thread_def example_defs)
  moreover have "\<exists>s1 s2. thread_exit exiting_kernel = Inr s1
          \<and> thread_tick False s1 = Inr s2 \<and> count_list (freed_pages s2) 5 = 1"
  proof -
    define s1 where "s1 = dispatched (thread_upd 5 (\<lambda>th. th\<lparr>status := THREAD_DYING\<rparr>)
        (exiting_kernel\<lparr>intr_level := INTR_OFF,
           all_list := remove1 5 (all_list exiting_kernel)\<rparr>))"
    have x: "thread_exit exiting_kernel = Inr s1"
      unfolding s1_def using ex(1,2,3,4) by (rule thread_exit_ok)
    have "thread_current s1 = Inr 1"
      by (simp add: s1_def thread_current_def dispatched_def next_of_def
          next_thread_to_run_def thread_upd_def is_thread_def exit_defs running_thread_def
          example_defs constant_defs)
    then have "\<exists>s2. thread_tick False s1 = Inr s2"
      by (simp add: thread_tick_def Let_def)
    then obtain s2 where k: "thread_tick False s1 = Inr s2"
      by blast
    then have "(returns_to 5)\<^sup>*\<^sup>* s1 s2"
      by (intro r_into_rtranclp returns_to.tick)
    then have "count_list (freed_pages s2) 5 = 1"
      using thread_schedule_tail_spec [of exiting_kernel] x ex ex5 by simp
    then show ?thesis
      using x k by blast
  qed
  ultimately show ?thesis
    using sw ex by blast
qed

end
